theory Spec2Isabelle
  imports Main "HOL-Library.Sublist" "HOL-Library.Word"
begin

section \<open>SimpleLang compiler: lexer, parser and code generator of \<^verbatim>\<open>final_cp.cpp\<close>\<close>

text \<open>
  The development embeds the pipeline of \<^verbatim>\<open>src/final_cp.cpp\<close> (lexer, recursive-descent
  parser, tree-walking code generator and the driver \<^verbatim>\<open>main\<close>) and, where a statement
  is about it, the lexer of \<^verbatim>\<open>src/parser.cpp\<close>.

  Conventions of the embedding:
  \<^item> a C++ exception is a value of type \<open>error\<close>; a function that can throw returns
    \<open>error + 'a\<close> with \<open>Inl\<close> for the exception;
  \<^item> mutable objects (\<^verbatim>\<open>Lexer\<close>, \<^verbatim>\<open>CodeGenerator\<close>) are records that are passed in and
    returned updated; the parser's only mutable field after tokenization is the cursor
    \<^verbatim>\<open>current\<close>, which is threaded as a natural number next to the fixed token vector;
  \<^item> the \<^verbatim>\<open>stringstream\<close> of the code generator is the list of the strings handed to
    \<^verbatim>\<open>emit\<close>, in order; \<^verbatim>\<open>getCurrentCode\<close> joins them, each followed by a newline;
  \<^item> \<^verbatim>\<open>int\<close> is taken to be 32 bits wide. The counters \<^verbatim>\<open>registerCount\<close> and
    \<^verbatim>\<open>labelCount\<close> are 32-bit words that are read as signed numbers (\<open>sint\<close>) and that
    \<open>+ 1\<close> wraps around from \<open>2^31 - 1\<close> to \<open>- 2^31\<close>. The C++ standard leaves the
    increment of an \<^verbatim>\<open>int\<close> that holds \<^verbatim>\<open>INT_MAX\<close> undefined; the model takes the
    two's-complement result that the compiled program computes.
\<close>

subsection \<open>Characters and decimal numerals\<close>

text \<open>The \<^verbatim>\<open><cctype>\<close> predicates in the "C" locale; bytes above 127 satisfy none.\<close>

definition isdigit :: "char \<Rightarrow> bool" where
  "isdigit c = (let n = (of_char c :: nat) in 48 \<le> n \<and> n \<le> 57)"

definition isalpha :: "char \<Rightarrow> bool" where
  "isalpha c = (let n = (of_char c :: nat) in (65 \<le> n \<and> n \<le> 90) \<or> (97 \<le> n \<and> n \<le> 122))"

definition isalnum :: "char \<Rightarrow> bool" where
  "isalnum c = (isalpha c \<or> isdigit c)"

definition isspace :: "char \<Rightarrow> bool" where
  "isspace c = (let n = (of_char c :: nat) in n = 32 \<or> (9 \<le> n \<and> n \<le> 13))"

definition digit_char :: "nat \<Rightarrow> char" where
  "digit_char d = ''0123456789'' ! d"

fun digits :: "nat \<Rightarrow> string" where
  "digits n = (if n < 10 then [digit_char n] else digits (n div 10) @ [digit_char (n mod 10)])"

declare digits.simps [simp del]

text \<open>\<^verbatim>\<open>std::to_string(int)\<close>: decimal, with a leading minus sign for negative values.\<close>

definition to_string :: "int \<Rightarrow> string" where
  "to_string i = (if i < 0 then CHR ''-'' # digits (nat (- i)) else digits (nat i))"

text \<open>The value of a digit string, as \<^verbatim>\<open>strtol\<close> accumulates it in base 10.\<close>

definition digit_val :: "char \<Rightarrow> nat" where
  "digit_val c = of_char c - 48"

definition digits_val :: "string \<Rightarrow> nat" where
  "digits_val s = foldl (\<lambda>a c. 10 * a + digit_val c) 0 s"

subsection \<open>Tokens\<close>

datatype TokenType =
  TOKEN_INT | TOKEN_IDENTIFIER | TOKEN_NUMBER | TOKEN_ASSIGN | TOKEN_PLUS | TOKEN_MINUS
  | TOKEN_IF | TOKEN_EQUAL | TOKEN_LPAREN | TOKEN_RPAREN | TOKEN_LBRACE | TOKEN_RBRACE
  | TOKEN_NOT_EQUAL | TOKEN_SEMICOLON | TOKEN_UNKNOWN | TOKEN_EOF

text \<open>
  The class \<^verbatim>\<open>Token\<close>; its fields \<^verbatim>\<open>type\<close> and \<^verbatim>\<open>text\<close> are \<open>ttype\<close> and \<open>ttext\<close> here.
\<close>

datatype Token = Token (ttype: TokenType) (ttext: string)

subsection \<open>Lexer\<close>

text \<open>
  The class \<^verbatim>\<open>Lexer\<close> of \<^verbatim>\<open>final_cp.cpp\<close>: the input string and a cursor into it.
  \<^verbatim>\<open>currentChar\<close> reads the NUL character at and beyond the end of the input.
\<close>

record Lexer =
  input :: string
  position :: nat

definition new_Lexer :: "string \<Rightarrow> Lexer" where
  "new_Lexer s = \<lparr>input = s, position = 0\<rparr>"

definition currentChar :: "Lexer \<Rightarrow> char" where
  "currentChar l = (if position l \<ge> length (input l) then CHR 0x00 else input l ! position l)"

definition Lexer_advance :: "Lexer \<Rightarrow> Lexer" where
  "Lexer_advance l = l\<lparr>position := position l + 1\<rparr>"

text \<open>The three scanning loops stop at the end of the input, where the character read is NUL.\<close>

lemma isspace_in_range: "isspace (currentChar l) \<Longrightarrow> position l < length (input l)"
  by (auto simp: currentChar_def isspace_def split: if_splits)

lemma isalnum_in_range: "isalnum (currentChar l) \<Longrightarrow> position l < length (input l)"
  by (auto simp: currentChar_def isalnum_def isalpha_def isdigit_def split: if_splits)

lemma isdigit_in_range: "isdigit (currentChar l) \<Longrightarrow> position l < length (input l)"
  by (auto simp: currentChar_def isdigit_def split: if_splits)

function skipWhitespace :: "Lexer \<Rightarrow> Lexer" where
  "skipWhitespace l = (if isspace (currentChar l) then skipWhitespace (Lexer_advance l) else l)"
  by pat_completeness auto
termination
  by (relation "measure (\<lambda>l. length (input l) - position l)")
    (auto simp: Lexer_advance_def dest: isspace_in_range)

function read_alnum :: "string \<Rightarrow> Lexer \<Rightarrow> string \<times> Lexer" where
  "read_alnum text l =
     (if isalnum (currentChar l) then read_alnum (text @ [currentChar l]) (Lexer_advance l)
      else (text, l))"
  by pat_completeness auto
termination
  by (relation "measure (\<lambda>(text, l). length (input l) - position l)")
    (auto simp: Lexer_advance_def dest: isalnum_in_range)

function read_digits :: "string \<Rightarrow> Lexer \<Rightarrow> string \<times> Lexer" where
  "read_digits number l =
     (if isdigit (currentChar l) then read_digits (number @ [currentChar l]) (Lexer_advance l)
      else (number, l))"
  by pat_completeness auto
termination
  by (relation "measure (\<lambda>(number, l). length (input l) - position l)")
    (auto simp: Lexer_advance_def dest: isdigit_in_range)

declare skipWhitespace.simps [simp del] read_alnum.simps [simp del] read_digits.simps [simp del]

definition getNextToken :: "Lexer \<Rightarrow> Token \<times> Lexer" where
  "getNextToken l0 =
     (let l = skipWhitespace l0 in
      if position l \<ge> length (input l) then (Token TOKEN_EOF '''', l)
      else if isalpha (currentChar l) then
        (let (text, l1) = read_alnum [] l in
         if text = ''int'' then (Token TOKEN_INT text, l1)
         else if text = ''if'' then (Token TOKEN_IF text, l1)
         else (Token TOKEN_IDENTIFIER text, l1))
      else if isdigit (currentChar l) then
        (let (number, l1) = read_digits [] l in (Token TOKEN_NUMBER number, l1))
      else
        (let c = currentChar l; l1 = Lexer_advance l in
         if c = CHR ''='' then
           (if currentChar l1 = CHR ''='' then (Token TOKEN_EQUAL ''=='', Lexer_advance l1)
            else (Token TOKEN_ASSIGN ''='', l1))
         else if c = CHR ''+'' then (Token TOKEN_PLUS ''+'', l1)
         else if c = CHR ''-'' then (Token TOKEN_MINUS ''-'', l1)
         else if c = CHR ''('' then (Token TOKEN_LPAREN ''('', l1)
         else if c = CHR '')'' then (Token TOKEN_RPAREN '')'', l1)
         else if c = CHR ''{'' then (Token TOKEN_LBRACE ''{'', l1)
         else if c = CHR ''}'' then (Token TOKEN_RBRACE ''}'', l1)
         else if c = CHR '';'' then (Token TOKEN_SEMICOLON '';'', l1)
         else (Token TOKEN_UNKNOWN [c], l1)))"

lemma skipWhitespace_props:
  "input (skipWhitespace l) = input l \<and> position l \<le> position (skipWhitespace l)
   \<and> \<not> isspace (currentChar (skipWhitespace l))"
proof (induction l rule: skipWhitespace.induct)
  case (1 l)
  show ?case
  proof (cases "isspace (currentChar l)")
    case True
    with "1.IH" show ?thesis
      by (subst (1 2 3) skipWhitespace.simps) (simp add: Lexer_advance_def)
  next
    case False
    then show ?thesis by (subst (1 2 3) skipWhitespace.simps) simp
  qed
qed

lemma skipWhitespace_idem: "skipWhitespace (skipWhitespace l) = skipWhitespace l"
  using skipWhitespace_props [of l] by (subst skipWhitespace.simps) simp

lemma read_alnum_props:
  "input (snd (read_alnum acc l)) = input l \<and> position l \<le> position (snd (read_alnum acc l))"
proof (induction acc l rule: read_alnum.induct)
  case (1 acc l)
  show ?case
  proof (cases "isalnum (currentChar l)")
    case True
    with "1.IH" show ?thesis
      by (subst (1 2) read_alnum.simps) (simp add: Lexer_advance_def)
  next
    case False
    then show ?thesis by (subst (1 2) read_alnum.simps) simp
  qed
qed

lemma read_alnum_progress:
  "isalnum (currentChar l) \<Longrightarrow> position l < position (snd (read_alnum acc l))"
  using read_alnum_props [of "acc @ [currentChar l]" "Lexer_advance l"]
  by (subst read_alnum.simps) (simp add: Lexer_advance_def)

lemma read_digits_props:
  "input (snd (read_digits number l)) = input l \<and> position l \<le> position (snd (read_digits number l))"
proof (induction number l rule: read_digits.induct)
  case (1 number l)
  show ?case
  proof (cases "isdigit (currentChar l)")
    case True
    with "1.IH" show ?thesis
      by (subst (1 2) read_digits.simps) (simp add: Lexer_advance_def)
  next
    case False
    then show ?thesis by (subst (1 2) read_digits.simps) simp
  qed
qed

lemma read_digits_progress:
  "isdigit (currentChar l) \<Longrightarrow> position l < position (snd (read_digits number l))"
  using read_digits_props [of "number @ [currentChar l]" "Lexer_advance l"]
  by (subst read_digits.simps) (simp add: Lexer_advance_def)

lemma getNextToken_at_end:
  "length (input (skipWhitespace l)) \<le> position (skipWhitespace l) \<Longrightarrow>
     getNextToken l = (Token TOKEN_EOF '''', skipWhitespace l)"
  by (simp add: getNextToken_def)

lemma getNextToken_not_at_end:
  assumes "position (skipWhitespace l) < length (input (skipWhitespace l))"
  shows "ttype (fst (getNextToken l)) \<noteq> TOKEN_EOF
    \<and> input (snd (getNextToken l)) = input l
    \<and> position (skipWhitespace l) < position (snd (getNextToken l))"
proof -
  let ?l = "skipWhitespace l"
  have i: "input ?l = input l" using skipWhitespace_props [of l] by simp
  show ?thesis
  proof (cases "isalpha (currentChar ?l)")
    case True
    then have "isalnum (currentChar ?l)" by (simp add: isalnum_def)
    then have "position ?l < position (snd (read_alnum [] ?l))" by (rule read_alnum_progress)
    with True assms i read_alnum_props [of "[]" ?l] show ?thesis
      by (simp add: getNextToken_def Let_def case_prod_beta)
  next
    case False
    show ?thesis
    proof (cases "isdigit (currentChar ?l)")
      case True
      then have "position ?l < position (snd (read_digits [] ?l))" by (rule read_digits_progress)
      with True \<open>\<not> isalpha (currentChar ?l)\<close> assms i read_digits_props [of "[]" ?l] show ?thesis
        by (simp add: getNextToken_def Let_def case_prod_beta)
    next
      case False
      with \<open>\<not> isalpha (currentChar ?l)\<close> assms i show ?thesis
        by (simp add: getNextToken_def Let_def Lexer_advance_def)
    qed
  qed
qed

lemma getNextToken_EOF_iff:
  "ttype (fst (getNextToken l)) = TOKEN_EOF
     \<longleftrightarrow> length (input (skipWhitespace l)) \<le> position (skipWhitespace l)"
  using getNextToken_at_end [of l] getNextToken_not_at_end [of l]
  by (cases "length (input (skipWhitespace l)) \<le> position (skipWhitespace l)") auto

lemma getNextToken_measure:
  assumes "ttype (fst (getNextToken l)) \<noteq> TOKEN_EOF"
  shows "length (input (snd (getNextToken l))) - position (snd (getNextToken l))
    < length (input l) - position l"
proof -
  from assms have a: "position (skipWhitespace l) < length (input (skipWhitespace l))"
    by (simp add: getNextToken_EOF_iff)
  from getNextToken_not_at_end [OF a] skipWhitespace_props [of l] a
  show ?thesis by auto
qed

text \<open>
  The tokenizing loop of \<^verbatim>\<open>Parser::parse\<close> (lines 467 to 472): a do-while that appends
  every token to \<^verbatim>\<open>tokens\<close>, the final \<^verbatim>\<open>TOKEN_EOF\<close> included. It terminates because
  every token other than \<^verbatim>\<open>TOKEN_EOF\<close> moves the cursor forward.
\<close>

function tokenize :: "Lexer \<Rightarrow> Token list \<Rightarrow> Token list" where
  "tokenize lexer tokens =
     (let (token, lexer1) = getNextToken lexer;
          tokens1 = tokens @ [token]
      in if ttype token \<noteq> TOKEN_EOF then tokenize lexer1 tokens1 else tokens1)"
  by pat_completeness auto
termination
proof (relation "measure (\<lambda>(lexer, tokens). length (input lexer) - position lexer)")
  show "wf (measure (\<lambda>(lexer, tokens). length (input lexer) - position lexer))" by simp
next
  fix lexer :: Lexer and tokens :: "Token list" and x token lexer1 tokens1
  assume "x = getNextToken lexer" and "(token, lexer1) = x" and "tokens1 = tokens @ [token]"
    and "ttype token \<noteq> TOKEN_EOF"
  then show "((lexer1, tokens1), (lexer, tokens))
      \<in> measure (\<lambda>(lexer, tokens). length (input lexer) - position lexer)"
    using getNextToken_measure [of lexer] by (auto dest: sym simp: fst_def snd_def split: prod.splits)
qed

declare tokenize.simps [simp del]


subsection \<open>The lexer of \<^verbatim>\<open>parser.cpp\<close>\<close>

text \<open>
  \<^verbatim>\<open>Lexer::getNextToken\<close> of \<^verbatim>\<open>parser.cpp\<close> reads a file stream one character ahead. Its
  state is the list of the characters from \<^verbatim>\<open>currentChar\<close> on: the stream is good while
  the list is not empty, and a read at the end leaves it failed, with a \<^verbatim>\<open>currentChar\<close>
  that is no letter, digit, space or operator. The outer \<^verbatim>\<open>while (file)\<close> loop, which
  only white space sends round again, is the recursion; the two scanning loops are
  \<open>takeWhile\<close> and \<open>dropWhile\<close>.
\<close>

function parser_cpp_getNextToken :: "string \<Rightarrow> Token \<times> string" where
  "parser_cpp_getNextToken cs =
     (case cs of
        [] \<Rightarrow> (Token TOKEN_EOF [], [])
      | c # rest \<Rightarrow>
          if isspace c then parser_cpp_getNextToken rest
          else if isalpha c then
            (let name = takeWhile isalnum cs; cs1 = dropWhile isalnum cs
             in if name = ''int'' then (Token TOKEN_INT name, cs1)
                else if name = ''if'' then (Token TOKEN_IF name, cs1)
                else (Token TOKEN_IDENTIFIER name, cs1))
          else if isdigit c then
            (Token TOKEN_NUMBER (takeWhile isdigit cs), dropWhile isdigit cs)
          else if c = CHR ''='' then
            (case rest of
               [] \<Rightarrow> (Token TOKEN_ASSIGN ''='', rest)
             | c1 # rest1 \<Rightarrow>
                 if c1 = CHR ''='' then (Token TOKEN_EQUAL ''=='', rest1)
                 else (Token TOKEN_ASSIGN ''='', rest))
          else if c = CHR ''+'' then (Token TOKEN_PLUS ''+'', rest)
          else if c = CHR ''-'' then (Token TOKEN_MINUS ''-'', rest)
          else if c = CHR ''!'' then
            (case rest of
               [] \<Rightarrow> (Token TOKEN_UNKNOWN ''!'', rest)
             | c1 # rest1 \<Rightarrow>
                 if c1 = CHR ''='' then (Token TOKEN_NOT_EQUAL ''!='', rest1)
                 else (Token TOKEN_UNKNOWN ''!'', rest))
          else if c = CHR ''{'' then (Token TOKEN_LBRACE ''{'', rest)
          else if c = CHR ''}'' then (Token TOKEN_RBRACE ''}'', rest)
          else if c = CHR ''('' then (Token TOKEN_LPAREN ''('', rest)
          else if c = CHR '')'' then (Token TOKEN_RPAREN '')'', rest)
          else if c = CHR '';'' then (Token TOKEN_SEMICOLON '';'', rest)
          else (Token TOKEN_UNKNOWN [c], rest))"
  by pat_completeness auto
termination
  by (relation "measure length") auto

declare parser_cpp_getNextToken.simps [simp del]


subsection \<open>Abstract syntax\<close>

text \<open>
  \<^verbatim>\<open>Expression\<close> and \<^verbatim>\<open>Statement\<close> with their subclasses. The only pointer that the
  parser ever leaves null is the initializer of a declaration, hence the \<open>option\<close>.
\<close>

datatype Expression =
  Number int
  | Identifier string
  | BinaryOp string Expression Expression

datatype Statement =
  Assignment string Expression
  | VarDeclaration string string "Expression option"
  | Block "Statement list"
  | If Expression Statement

subsection \<open>Parser\<close>

text \<open>
  The exceptions of the pipeline: \<^verbatim>\<open>std::runtime_error\<close> with its message, thrown by the
  parser, and the two exceptions of \<^verbatim>\<open>std::stoi\<close>.
\<close>

datatype error = runtime_error string | out_of_range | invalid_argument

text \<open>
  \<^verbatim>\<open>std::stoi\<close> in base 10, as \<^verbatim>\<open>strtol\<close> reads the string: leading white space, an
  optional sign, then the longest run of digits. No digit is \<^verbatim>\<open>std::invalid_argument\<close>; a
  value outside the 32-bit \<^verbatim>\<open>int\<close> is \<^verbatim>\<open>std::out_of_range\<close>.
\<close>

definition stoi :: "string \<Rightarrow> error + int" where
  "stoi str =
     (let s1 = dropWhile isspace str;
          (negative, s2) =
            (case s1 of
               [] \<Rightarrow> (False, s1)
             | c # rest \<Rightarrow>
                 if c = CHR ''-'' then (True, rest)
                 else if c = CHR ''+'' then (False, rest)
                 else (False, s1));
          ds = takeWhile isdigit s2
      in if ds = [] then Inl invalid_argument
         else
           (let v = (if negative then - int (digits_val ds) else int (digits_val ds))
            in if v < - 2147483648 \<or> 2147483647 < v then Inl out_of_range else Inr v))"

text \<open>A piece of a message between single quotes, as in \<^verbatim>\<open>"Expected ';'"\<close>.\<close>

definition quoted :: "string \<Rightarrow> string" where
  "quoted s = [CHR 0x27] @ s @ [CHR 0x27]"

text \<open>
  The parser reads the token vector \<^verbatim>\<open>tokens\<close>, which it never changes once it is filled,
  through the cursor \<^verbatim>\<open>current\<close>. Every parsing function takes the cursor and returns,
  when it does not throw, its result and the new cursor.
\<close>

definition peek :: "Token list \<Rightarrow> nat \<Rightarrow> Token" where
  "peek tokens current =
     (if current \<ge> length tokens then Token TOKEN_EOF '''' else tokens ! current)"

definition Parser_advance :: "Token list \<Rightarrow> nat \<Rightarrow> Token \<times> nat" where
  "Parser_advance tokens current =
     (if current \<ge> length tokens then (Token TOKEN_EOF '''', current)
      else (tokens ! current, current + 1))"

definition match :: "Token list \<Rightarrow> nat \<Rightarrow> TokenType \<Rightarrow> bool \<times> nat" where
  "match tokens current ty =
     (if ttype (peek tokens current) = ty then (True, snd (Parser_advance tokens current))
      else (False, current))"

text \<open>
  The expression functions. The two \<^verbatim>\<open>while\<close> loops, of \<^verbatim>\<open>parseEquality\<close> and of
  \<^verbatim>\<open>parseAdditive\<close>, are functions of their own, with the loop variable \<^verbatim>\<open>left\<close> as an
  argument.
\<close>

function parseExpression :: "Token list \<Rightarrow> nat \<Rightarrow> error + Expression \<times> nat"
  and parseEquality :: "Token list \<Rightarrow> nat \<Rightarrow> error + Expression \<times> nat"
  and parseEquality_while :: "Token list \<Rightarrow> Expression \<Rightarrow> nat \<Rightarrow> error + Expression \<times> nat"
  and parseAdditive :: "Token list \<Rightarrow> nat \<Rightarrow> error + Expression \<times> nat"
  and parseAdditive_while :: "Token list \<Rightarrow> Expression \<Rightarrow> nat \<Rightarrow> error + Expression \<times> nat"
  and parsePrimary :: "Token list \<Rightarrow> nat \<Rightarrow> error + Expression \<times> nat"
where
  "parseExpression tokens current = parseEquality tokens current"
| "parseEquality tokens current =
     (case parseAdditive tokens current of
        Inl ex \<Rightarrow> Inl ex
      | Inr (left, current1) \<Rightarrow> parseEquality_while tokens left current1)"
| "parseEquality_while tokens left current =
     (if ttype (peek tokens current) = TOKEN_EQUAL then
        (let (t, current1) = Parser_advance tokens current; op = ttext t
         in case parseAdditive tokens current1 of
              Inl ex \<Rightarrow> Inl ex
            | Inr (right, current2) \<Rightarrow>
                parseEquality_while tokens (BinaryOp op left right) current2)
      else Inr (left, current))"
| "parseAdditive tokens current =
     (case parsePrimary tokens current of
        Inl ex \<Rightarrow> Inl ex
      | Inr (left, current1) \<Rightarrow> parseAdditive_while tokens left current1)"
| "parseAdditive_while tokens left current =
     (if ttype (peek tokens current) = TOKEN_PLUS \<or> ttype (peek tokens current) = TOKEN_MINUS then
        (let (t, current1) = Parser_advance tokens current; op = ttext t
         in case parsePrimary tokens current1 of
              Inl ex \<Rightarrow> Inl ex
            | Inr (right, current2) \<Rightarrow>
                parseAdditive_while tokens (BinaryOp op left right) current2)
      else Inr (left, current))"
| "parsePrimary tokens current =
     (case match tokens current TOKEN_NUMBER of
        (True, current1) \<Rightarrow>
          (case stoi (ttext (tokens ! (current1 - 1))) of
             Inl ex \<Rightarrow> Inl ex
           | Inr v \<Rightarrow> Inr (Number v, current1))
      | (False, _) \<Rightarrow>
     (case match tokens current TOKEN_IDENTIFIER of
        (True, current1) \<Rightarrow> Inr (Identifier (ttext (tokens ! (current1 - 1))), current1)
      | (False, _) \<Rightarrow>
     (case match tokens current TOKEN_LPAREN of
        (True, current1) \<Rightarrow>
          (case parseExpression tokens current1 of
             Inl ex \<Rightarrow> Inl ex
           | Inr (expr, current2) \<Rightarrow>
               (case match tokens current2 TOKEN_RPAREN of
                  (False, _) \<Rightarrow> Inl (runtime_error (''Expected '' @ quoted '')''))
                | (True, current3) \<Rightarrow> Inr (expr, current3)))
      | (False, _) \<Rightarrow> Inl (runtime_error ''Expected expression''))))"
  by pat_completeness auto

text \<open>
  Termination: the functions call each other on cursors that do not decrease, and each
  loop iteration and each parenthesis consumes a token. That a result's cursor is not
  before the call's is shown first, on the domain of the functions.
\<close>

abbreviation parse_expr_dom where
  "parse_expr_dom \<equiv>
     parseExpression_parseEquality_parseEquality_while_parseAdditive_parseAdditive_while_parsePrimary_dom"

definition advances :: "nat \<Rightarrow> error + 'a \<times> nat \<Rightarrow> bool" where
  "advances current r = (case r of Inl ex \<Rightarrow> True | Inr (x, current1) \<Rightarrow> current \<le> current1)"

lemma advances_Inl [simp]: "advances current (Inl ex)"
  by (simp add: advances_def)

lemma advances_Inr [simp]: "advances current (Inr (x, current1)) \<longleftrightarrow> current \<le> current1"
  by (simp add: advances_def)

lemma advances_trans:
  "current \<le> current1 \<Longrightarrow> advances current1 r \<Longrightarrow> advances current r"
  by (auto simp: advances_def split: sum.splits)

lemma peek_not_EOF: "ttype (peek tokens current) \<noteq> TOKEN_EOF \<Longrightarrow> current < length tokens"
  by (auto simp: peek_def split: if_splits)

lemma Parser_advance_in_range:
  "current < length tokens \<Longrightarrow> Parser_advance tokens current = (tokens ! current, Suc current)"
  by (simp add: Parser_advance_def)

lemma match_True:
  "match tokens current ty = (True, current1) \<Longrightarrow> ty \<noteq> TOKEN_EOF \<Longrightarrow>
     current < length tokens \<and> current1 = Suc current \<and> ttype (tokens ! current) = ty"
  by (auto simp: match_def peek_def Parser_advance_def split: if_splits)

lemma match_False:
  "match tokens current ty = (False, current1) \<Longrightarrow>
     current1 = current \<and> ttype (peek tokens current) \<noteq> ty"
  by (auto simp: match_def split: if_splits)

lemma match_eq:
  "ty \<noteq> TOKEN_EOF \<Longrightarrow>
     match tokens current ty
       = (if ttype (peek tokens current) = ty then (True, Suc current) else (False, current))"
  by (auto simp: match_def peek_def Parser_advance_def)

lemma parse_expr_advances_dom:
  "parse_expr_dom (Inl (Inl (tokens, current))) \<Longrightarrow>
     advances current (parseExpression tokens current)"
  "parse_expr_dom (Inl (Inr (Inl (tokens, current)))) \<Longrightarrow>
     advances current (parseEquality tokens current)"
  "parse_expr_dom (Inl (Inr (Inr (tokens, left, current)))) \<Longrightarrow>
     advances current (parseEquality_while tokens left current)"
  "parse_expr_dom (Inr (Inl (tokens, current))) \<Longrightarrow>
     advances current (parseAdditive tokens current)"
  "parse_expr_dom (Inr (Inr (Inl (tokens, left, current)))) \<Longrightarrow>
     advances current (parseAdditive_while tokens left current)"
  "parse_expr_dom (Inr (Inr (Inr (tokens, current)))) \<Longrightarrow>
     advances current (parsePrimary tokens current)"
proof (induct rule:
    parseExpression_parseEquality_parseEquality_while_parseAdditive_parseAdditive_while_parsePrimary.pinduct)
  case (1 tokens current)
  then show ?case by (simp add: parseExpression.psimps)
next
  case (2 tokens current)
  show ?case
  proof (cases "parseAdditive tokens current")
    case (Inl ex)
    with "2.hyps"(1) show ?thesis by (simp add: parseEquality.psimps)
  next
    case (Inr b)
    obtain left current1 where b: "b = (left, current1)" by (cases b)
    from "2.hyps"(2) Inr b have "current \<le> current1" by simp
    moreover from "2.hyps"(3) [OF Inr b [symmetric]]
    have "advances current1 (parseEquality_while tokens left current1)" .
    ultimately have "advances current (parseEquality_while tokens left current1)"
      by (rule advances_trans)
    then show ?thesis using "2.hyps"(1) Inr b
      by (simp add: parseEquality.psimps)
  qed
next
  case (3 tokens left current)
  show ?case
  proof (cases "ttype (peek tokens current) = TOKEN_EQUAL")
    case False
    with "3.hyps"(1) show ?thesis by (simp add: parseEquality_while.psimps)
  next
    case True
    then have r: "current < length tokens" by (auto intro: peek_not_EOF)
    then have a: "Parser_advance tokens current = (tokens ! current, Suc current)"
      by (rule Parser_advance_in_range)
    show ?thesis
    proof (cases "parseAdditive tokens (Suc current)")
      case (Inl ex)
      with "3.hyps"(1) True a show ?thesis by (simp add: parseEquality_while.psimps)
    next
      case (Inr b)
      obtain right current2 where b: "b = (right, current2)" by (cases b)
      from "3.hyps"(2) [OF True refl a [symmetric] refl] Inr b
      have "current \<le> current2" by simp
      moreover from "3.hyps"(3) [OF True refl a [symmetric] refl Inr b [symmetric]]
      have "advances current2
          (parseEquality_while tokens (BinaryOp (ttext (tokens ! current)) left right) current2)" .
      ultimately have "advances current
          (parseEquality_while tokens (BinaryOp (ttext (tokens ! current)) left right) current2)"
        by (rule advances_trans)
      then show ?thesis using "3.hyps"(1) True a Inr b
        by (simp add: parseEquality_while.psimps)
    qed
  qed
next
  case (4 tokens current)
  show ?case
  proof (cases "parsePrimary tokens current")
    case (Inl ex)
    with "4.hyps"(1) show ?thesis by (simp add: parseAdditive.psimps)
  next
    case (Inr b)
    obtain left current1 where b: "b = (left, current1)" by (cases b)
    from "4.hyps"(2) Inr b have "current \<le> current1" by simp
    moreover from "4.hyps"(3) [OF Inr b [symmetric]]
    have "advances current1 (parseAdditive_while tokens left current1)" .
    ultimately have "advances current (parseAdditive_while tokens left current1)"
      by (rule advances_trans)
    then show ?thesis using "4.hyps"(1) Inr b
      by (simp add: parseAdditive.psimps)
  qed
next
  case (5 tokens left current)
  show ?case
  proof (cases "ttype (peek tokens current) = TOKEN_PLUS \<or> ttype (peek tokens current) = TOKEN_MINUS")
    case False
    with "5.hyps"(1) show ?thesis by (simp add: parseAdditive_while.psimps)
  next
    case True
    then have r: "current < length tokens" by (auto intro: peek_not_EOF)
    then have a: "Parser_advance tokens current = (tokens ! current, Suc current)"
      by (rule Parser_advance_in_range)
    show ?thesis
    proof (cases "parsePrimary tokens (Suc current)")
      case (Inl ex)
      with "5.hyps"(1) True a show ?thesis by (simp add: parseAdditive_while.psimps)
    next
      case (Inr b)
      obtain right current2 where b: "b = (right, current2)" by (cases b)
      from "5.hyps"(2) [OF True refl a [symmetric] refl] Inr b
      have "current \<le> current2" by simp
      moreover from "5.hyps"(3) [OF True refl a [symmetric] refl Inr b [symmetric]]
      have "advances current2
          (parseAdditive_while tokens (BinaryOp (ttext (tokens ! current)) left right) current2)" .
      ultimately have "advances current
          (parseAdditive_while tokens (BinaryOp (ttext (tokens ! current)) left right) current2)"
        by (rule advances_trans)
      then show ?thesis using "5.hyps"(1) True a Inr b
        by (simp add: parseAdditive_while.psimps)
    qed
  qed
next
  case (6 tokens current)
  note dom = "6.hyps"(1)
  show ?case
  proof (cases "ttype (peek tokens current) = TOKEN_LPAREN")
    case False
    with dom show ?thesis
      by (simp add: parsePrimary.psimps match_eq split: sum.splits)
  next
    case True
    then have n: "(False, current) = match tokens current TOKEN_NUMBER"
      and i: "(False, current) = match tokens current TOKEN_IDENTIFIER"
      and p: "(True, Suc current) = match tokens current TOKEN_LPAREN"
      by (simp_all add: match_eq)
    from "6.hyps"(2) [OF n refl i refl p refl]
    have "advances (Suc current) (parseExpression tokens (Suc current))" .
    with dom True show ?thesis
      by (auto simp: parsePrimary.psimps match_eq split: sum.splits)
  qed
qed


definition parse_expr_measure ::
  "(Token list \<times> nat + Token list \<times> nat + Token list \<times> Expression \<times> nat)
   + (Token list \<times> nat + Token list \<times> Expression \<times> nat + Token list \<times> nat)
   \<Rightarrow> nat \<times> nat" where
  "parse_expr_measure x =
     (case x of
        Inl (Inl (tokens, current)) \<Rightarrow> (length tokens - current, 5)
      | Inl (Inr (Inl (tokens, current))) \<Rightarrow> (length tokens - current, 4)
      | Inl (Inr (Inr (tokens, left, current))) \<Rightarrow> (length tokens - current, 3)
      | Inr (Inl (tokens, current)) \<Rightarrow> (length tokens - current, 2)
      | Inr (Inr (Inl (tokens, left, current))) \<Rightarrow> (length tokens - current, 1)
      | Inr (Inr (Inr (tokens, current))) \<Rightarrow> (length tokens - current, 0))"

lemma parse_expr_total: "All parse_expr_dom"
  by (relation "inv_image (less_than <*lex*> less_than) parse_expr_measure")
    (auto simp: parse_expr_measure_def match_eq Parser_advance_def peek_def split: if_splits
      dest!: parse_expr_advances_dom)

termination parseExpression
  by (rule parse_expr_total)

declare parseExpression.simps [simp del] parseEquality.simps [simp del]
  parseEquality_while.simps [simp del] parseAdditive.simps [simp del]
  parseAdditive_while.simps [simp del] parsePrimary.simps [simp del]

lemmas parse_expr_advances = parse_expr_advances_dom [OF parse_expr_total [THEN spec]]

text \<open>The statement functions.\<close>

definition parseVarDeclaration :: "Token list \<Rightarrow> nat \<Rightarrow> error + Statement \<times> nat" where
  "parseVarDeclaration tokens current =
     (case match tokens current TOKEN_IDENTIFIER of
        (False, _) \<Rightarrow> Inl (runtime_error (''Expected identifier after '' @ quoted ''int''))
      | (True, current1) \<Rightarrow>
          (let name = ttext (tokens ! (current1 - 1))
           in case (case match tokens current1 TOKEN_ASSIGN of
                      (True, current2) \<Rightarrow>
                        (case parseExpression tokens current2 of
                           Inl ex \<Rightarrow> Inl ex
                         | Inr (init, current3) \<Rightarrow> Inr (Some init, current3))
                    | (False, _) \<Rightarrow> Inr (None, current1)) of
                Inl ex \<Rightarrow> Inl ex
              | Inr (init, current4) \<Rightarrow>
                  (case match tokens current4 TOKEN_SEMICOLON of
                     (False, _) \<Rightarrow> Inl (runtime_error (''Expected '' @ quoted '';''))
                   | (True, current5) \<Rightarrow> Inr (VarDeclaration ''int'' name init, current5))))"

definition parseAssignment :: "Token list \<Rightarrow> nat \<Rightarrow> error + Statement \<times> nat" where
  "parseAssignment tokens current =
     (let (t, current1) = Parser_advance tokens current; name = ttext t
      in case match tokens current1 TOKEN_ASSIGN of
           (False, _) \<Rightarrow> Inl (runtime_error (''Expected '' @ quoted ''=''))
         | (True, current2) \<Rightarrow>
             (case parseExpression tokens current2 of
                Inl ex \<Rightarrow> Inl ex
              | Inr (val, current3) \<Rightarrow>
                  (case match tokens current3 TOKEN_SEMICOLON of
                     (False, _) \<Rightarrow> Inl (runtime_error (''Expected '' @ quoted '';''))
                   | (True, current4) \<Rightarrow> Inr (Assignment name val, current4))))"

function parseStatement :: "Token list \<Rightarrow> nat \<Rightarrow> error + Statement \<times> nat"
  and parseIf :: "Token list \<Rightarrow> nat \<Rightarrow> error + Statement \<times> nat"
  and parseIf_while :: "Token list \<Rightarrow> Statement list \<Rightarrow> nat \<Rightarrow> error + Statement list \<times> nat"
where
  "parseStatement tokens current =
     (case match tokens current TOKEN_INT of
        (True, current1) \<Rightarrow> parseVarDeclaration tokens current1
      | (False, _) \<Rightarrow>
     (case match tokens current TOKEN_IF of
        (True, current1) \<Rightarrow> parseIf tokens current1
      | (False, _) \<Rightarrow>
          if ttype (peek tokens current) = TOKEN_IDENTIFIER then parseAssignment tokens current
          else Inl (runtime_error ''Expected statement'')))"
| "parseIf tokens current =
     (case match tokens current TOKEN_LPAREN of
        (False, _) \<Rightarrow> Inl (runtime_error (''Expected '' @ quoted ''(''))
      | (True, current1) \<Rightarrow>
     (case parseExpression tokens current1 of
        Inl ex \<Rightarrow> Inl ex
      | Inr (condition, current2) \<Rightarrow>
     (case match tokens current2 TOKEN_RPAREN of
        (False, _) \<Rightarrow> Inl (runtime_error (''Expected '' @ quoted '')''))
      | (True, current3) \<Rightarrow>
     (case match tokens current3 TOKEN_LBRACE of
        (False, _) \<Rightarrow> Inl (runtime_error (''Expected '' @ quoted ''{''))
      | (True, current4) \<Rightarrow>
     (case parseIf_while tokens [] current4 of
        Inl ex \<Rightarrow> Inl ex
      | Inr (body, current5) \<Rightarrow> Inr (If condition (Block body), current5))))))"
| "parseIf_while tokens body current =
     (case match tokens current TOKEN_RBRACE of
        (True, current1) \<Rightarrow> Inr (body, current1)
      | (False, _) \<Rightarrow>
          (case parseStatement tokens current of
             Inl ex \<Rightarrow> Inl ex
           | Inr (stmt, current1) \<Rightarrow> parseIf_while tokens (body @ [stmt]) current1))"
  by pat_completeness auto

abbreviation parse_stmt_dom where
  "parse_stmt_dom \<equiv> parseStatement_parseIf_parseIf_while_dom"

lemma parseExpression_advances_D:
  "parseExpression tokens current = Inr (e, current1) \<Longrightarrow> current \<le> current1"
  using parse_expr_advances(1) [where tokens = tokens and current = current] by simp

lemma parseVarDeclaration_if:
  "parseVarDeclaration tokens current =
     (if ttype (peek tokens current) = TOKEN_IDENTIFIER then
        (if ttype (peek tokens (Suc current)) = TOKEN_ASSIGN then
           (case parseExpression tokens (Suc (Suc current)) of
              Inl ex \<Rightarrow> Inl ex
            | Inr (init, current3) \<Rightarrow>
                if ttype (peek tokens current3) = TOKEN_SEMICOLON
                then Inr (VarDeclaration ''int'' (ttext (tokens ! current)) (Some init), Suc current3)
                else Inl (runtime_error (''Expected '' @ quoted '';'')))
         else if ttype (peek tokens (Suc current)) = TOKEN_SEMICOLON
           then Inr (VarDeclaration ''int'' (ttext (tokens ! current)) None, Suc (Suc current))
           else Inl (runtime_error (''Expected '' @ quoted '';'')))
      else Inl (runtime_error (''Expected identifier after '' @ quoted ''int'')))"
  by (simp add: parseVarDeclaration_def match_eq Let_def split: sum.splits prod.splits)

lemma parseAssignment_if:
  "current < length tokens \<Longrightarrow>
   parseAssignment tokens current =
     (if ttype (peek tokens (Suc current)) = TOKEN_ASSIGN then
        (case parseExpression tokens (Suc (Suc current)) of
           Inl ex \<Rightarrow> Inl ex
         | Inr (val, current3) \<Rightarrow>
             if ttype (peek tokens current3) = TOKEN_SEMICOLON
             then Inr (Assignment (ttext (tokens ! current)) val, Suc current3)
             else Inl (runtime_error (''Expected '' @ quoted '';'')))
      else Inl (runtime_error (''Expected '' @ quoted ''='')))"
  by (simp add: parseAssignment_def match_eq Let_def Parser_advance_def split: sum.splits prod.splits)

definition consumes :: "Token list \<Rightarrow> nat \<Rightarrow> error + 'a \<times> nat \<Rightarrow> bool" where
  "consumes tokens current r =
     (case r of Inl ex \<Rightarrow> True | Inr (x, current1) \<Rightarrow> current < current1 \<and> current < length tokens)"

lemma consumes_Inl [simp]: "consumes tokens current (Inl ex)"
  by (simp add: consumes_def)

lemma consumes_Inr [simp]:
  "consumes tokens current (Inr (x, current1)) \<longleftrightarrow> current < current1 \<and> current < length tokens"
  by (simp add: consumes_def)

lemma parseVarDeclaration_advances:
  "advances current (parseVarDeclaration tokens current)"
proof (cases "parseExpression tokens (Suc (Suc current))")
  case (Inl ex)
  then show ?thesis by (simp add: parseVarDeclaration_if)
next
  case (Inr b)
  obtain init current3 where b: "b = (init, current3)" by (cases b)
  with Inr have "Suc (Suc current) \<le> current3" by (auto dest: parseExpression_advances_D)
  with Inr b show ?thesis by (simp add: parseVarDeclaration_if)
qed

lemma parseAssignment_advances:
  assumes "current < length tokens"
  shows "advances current (parseAssignment tokens current)"
proof (cases "parseExpression tokens (Suc (Suc current))")
  case (Inl ex)
  then show ?thesis by (simp add: parseAssignment_if [OF assms])
next
  case (Inr b)
  obtain val current3 where b: "b = (val, current3)" by (cases b)
  with Inr have "Suc (Suc current) \<le> current3" by (auto dest: parseExpression_advances_D)
  with Inr b show ?thesis by (simp add: parseAssignment_if [OF assms])
qed

lemma parse_stmt_advances_dom:
  "parse_stmt_dom (Inl (tokens, current)) \<Longrightarrow>
     consumes tokens current (parseStatement tokens current)"
  "parse_stmt_dom (Inr (Inl (tokens, current))) \<Longrightarrow>
     advances current (parseIf tokens current)"
  "parse_stmt_dom (Inr (Inr (tokens, body, current))) \<Longrightarrow>
     advances current (parseIf_while tokens body current)"
proof (induct rule: parseStatement_parseIf_parseIf_while.pinduct)
  case (1 tokens current)
  note dom = "1.hyps"(1)
  show ?case
  proof (cases "ttype (peek tokens current) = TOKEN_INT")
    case True
    then have "current < length tokens" by (auto intro: peek_not_EOF)
    with dom True parseVarDeclaration_advances [of "Suc current" tokens] show ?thesis
      by (auto simp: parseStatement.psimps match_eq advances_def consumes_def split: sum.splits)
  next
    case notint: False
    show ?thesis
    proof (cases "ttype (peek tokens current) = TOKEN_IF")
      case True
      then have r: "current < length tokens" by (auto intro: peek_not_EOF)
      from True have i: "(False, current) = match tokens current TOKEN_INT"
        and f: "(True, Suc current) = match tokens current TOKEN_IF"
        by (simp_all add: match_eq)
      from "1.hyps"(2) [OF i refl f refl]
      have "advances (Suc current) (parseIf tokens (Suc current))" .
      with dom True r show ?thesis
        by (auto simp: parseStatement.psimps match_eq advances_def consumes_def split: sum.splits)
    next
      case notif: False
      show ?thesis
      proof (cases "ttype (peek tokens current) = TOKEN_IDENTIFIER")
        case True
        then have r: "current < length tokens" by (auto intro: peek_not_EOF)
        have "advances (Suc current) (parseAssignment tokens current)"
        proof (cases "parseExpression tokens (Suc (Suc current))")
          case (Inl ex)
          then show ?thesis by (simp add: parseAssignment_if [OF r])
        next
          case (Inr b)
          obtain val current3 where b: "b = (val, current3)" by (cases b)
          with Inr have "Suc (Suc current) \<le> current3" by (auto dest: parseExpression_advances_D)
          with Inr b show ?thesis by (simp add: parseAssignment_if [OF r])
        qed
        with dom True r notint notif show ?thesis
          by (auto simp: parseStatement.psimps match_eq advances_def consumes_def split: sum.splits)
      next
        case False
        with dom notint notif show ?thesis
          by (simp add: parseStatement.psimps match_eq)
      qed
    qed
  qed
next
  case (2 tokens current)
  note dom = "2.hyps"(1)
  show ?case
  proof (cases "parseIf tokens current")
    case (Inl ex)
    then show ?thesis by simp
  next
    case (Inr r)
    obtain s current5 where r: "r = (s, current5)" by (cases r)
    from Inr r dom have l: "ttype (peek tokens current) = TOKEN_LPAREN"
      by (auto simp: parseIf.psimps match_eq split: if_splits)
    with Inr r dom obtain condition current2
      where e: "parseExpression tokens (Suc current) = Inr (condition, current2)"
      by (cases "parseExpression tokens (Suc current)") (auto simp: parseIf.psimps match_eq)
    from Inr r dom l e have rp: "ttype (peek tokens current2) = TOKEN_RPAREN"
      by (auto simp: parseIf.psimps match_eq split: if_splits)
    from Inr r dom l e rp have lb: "ttype (peek tokens (Suc current2)) = TOKEN_LBRACE"
      by (auto simp: parseIf.psimps match_eq split: if_splits)
    from Inr r dom l e rp lb obtain body
      where w: "parseIf_while tokens [] (Suc (Suc current2)) = Inr (body, current5)"
      by (cases "parseIf_while tokens [] (Suc (Suc current2))")
        (auto simp: parseIf.psimps match_eq)
    from "2.hyps"(2) [of True "Suc current" "(condition, current2)" condition current2
        True "Suc current2" True "Suc (Suc current2)"] l e rp lb
    have "advances (Suc (Suc current2)) (parseIf_while tokens [] (Suc (Suc current2)))"
      by (simp add: match_eq)
    with w have "Suc (Suc current2) \<le> current5" by simp
    moreover from e have "Suc current \<le> current2" by (rule parseExpression_advances_D)
    ultimately show ?thesis using Inr r by simp
  qed
next
  case (3 tokens body current)
  note dom = "3.hyps"(1)
  show ?case
  proof (cases "ttype (peek tokens current) = TOKEN_RBRACE")
    case True
    with dom show ?thesis by (simp add: parseIf_while.psimps match_eq)
  next
    case False
    then have m: "(False, current) = match tokens current TOKEN_RBRACE"
      by (simp add: match_eq)
    show ?thesis
    proof (cases "parseStatement tokens current")
      case (Inl ex)
      with dom False show ?thesis by (simp add: parseIf_while.psimps match_eq)
    next
      case (Inr b)
      obtain stmt current1 where b: "b = (stmt, current1)" by (cases b)
      from "3.hyps"(2) [OF m refl] Inr b have c: "current \<le> current1" by simp
      from "3.hyps"(3) [OF m refl Inr b [symmetric]]
      have "advances current1 (parseIf_while tokens (body @ [stmt]) current1)" .
      with c have "advances current (parseIf_while tokens (body @ [stmt]) current1)"
        by (rule advances_trans)
      with dom False Inr b show ?thesis by (simp add: parseIf_while.psimps match_eq)
    qed
  qed
qed

definition parse_stmt_measure ::
  "Token list \<times> nat + Token list \<times> nat + Token list \<times> Statement list \<times> nat \<Rightarrow> nat \<times> nat" where
  "parse_stmt_measure x =
     (case x of
        Inl (tokens, current) \<Rightarrow> (length tokens - current, 0)
      | Inr (Inl (tokens, current)) \<Rightarrow> (length tokens - current, 0)
      | Inr (Inr (tokens, body, current)) \<Rightarrow> (length tokens - current, 1))"

lemma parse_stmt_total: "All parse_stmt_dom"
  by (relation "inv_image (less_than <*lex*> less_than) parse_stmt_measure")
    (auto simp: parse_stmt_measure_def match_eq peek_def split: if_splits
      dest!: parse_stmt_advances_dom parseExpression_advances_D)

termination parseStatement
  by (rule parse_stmt_total)

declare parseStatement.simps [simp del] parseIf.simps [simp del] parseIf_while.simps [simp del]

lemmas parse_stmt_advances = parse_stmt_advances_dom [OF parse_stmt_total [THEN spec]]

lemma parseStatement_consumes_D:
  "parseStatement tokens current = Inr (stmt, current1) \<Longrightarrow>
     current < current1 \<and> current < length tokens"
  using parse_stmt_advances(1) [where tokens = tokens and current = current] by simp

text \<open>
  \<^verbatim>\<open>Parser::parse\<close>: the input is tokenized into \<^verbatim>\<open>tokens\<close> (empty before, cursor 0),
  then statements are parsed up to the \<^verbatim>\<open>TOKEN_EOF\<close> token.
\<close>

function parse_while :: "Token list \<Rightarrow> Statement list \<Rightarrow> nat \<Rightarrow> error + Statement" where
  "parse_while tokens program current =
     (if ttype (peek tokens current) \<noteq> TOKEN_EOF then
        (case parseStatement tokens current of
           Inl ex \<Rightarrow> Inl ex
         | Inr (stmt, current1) \<Rightarrow> parse_while tokens (program @ [stmt]) current1)
      else Inr (Block program))"
  by pat_completeness auto
termination
  by (relation "measure (\<lambda>(tokens, program, current). length tokens - current)")
    (auto dest!: parseStatement_consumes_D)

declare parse_while.simps [simp del]

definition parse :: "string \<Rightarrow> error + Statement" where
  "parse source = (let tokens = tokenize (new_Lexer source) [] in parse_while tokens [] 0)"


subsection \<open>Code generator\<close>

record CodeGenerator =
  registerCount :: "32 word"
  labelCount :: "32 word"
  assemblyCode :: "string list"
  variables :: "string \<rightharpoonup> string"

definition new_CodeGenerator :: CodeGenerator where
  "new_CodeGenerator =
     \<lparr>registerCount = 0, labelCount = 0, assemblyCode = [], variables = Map.empty\<rparr>"

definition getNewRegister :: "CodeGenerator \<Rightarrow> string \<times> CodeGenerator" where
  "getNewRegister g =
     (''R'' @ to_string (sint (registerCount g)), g\<lparr>registerCount := registerCount g + 1\<rparr>)"

definition getNewLabel :: "CodeGenerator \<Rightarrow> string \<times> CodeGenerator" where
  "getNewLabel g =
     (''L'' @ to_string (sint (labelCount g)), g\<lparr>labelCount := labelCount g + 1\<rparr>)"

definition emit :: "CodeGenerator \<Rightarrow> string \<Rightarrow> CodeGenerator" where
  "emit g code = g\<lparr>assemblyCode := assemblyCode g @ [code]\<rparr>"

definition declareVariable :: "CodeGenerator \<Rightarrow> string \<Rightarrow> CodeGenerator" where
  "declareVariable g name =
     (if variables g name = None
      then emit (g\<lparr>variables := (variables g)(name \<mapsto> name)\<rparr>) (name @ '': .word 0'')
      else g)"

text \<open>
  \<^verbatim>\<open>variables[name]\<close> is \<^verbatim>\<open>std::map::operator[]\<close>: a missing key would be inserted with
  the empty string.
\<close>

definition getVariableLocation :: "CodeGenerator \<Rightarrow> string \<Rightarrow> string \<times> CodeGenerator" where
  "getVariableLocation g name =
     (let g1 = (if variables g name = None then declareVariable g name else g)
      in case variables g1 name of
           Some loc \<Rightarrow> (loc, g1)
         | None \<Rightarrow> ('''', g1\<lparr>variables := (variables g1)(name \<mapsto> '''')\<rparr>))"

definition generatePrelude :: "CodeGenerator \<Rightarrow> CodeGenerator" where
  "generatePrelude g = emit g ''.section .data''"

definition generatePostlude :: "CodeGenerator \<Rightarrow> CodeGenerator" where
  "generatePostlude g = emit (emit (emit g ''.section .text'') ''.global _start'') ''_start:''"

definition generateEpilogue :: "CodeGenerator \<Rightarrow> CodeGenerator" where
  "generateEpilogue g = emit (emit (emit g ''MOV R7, #1'') ''MOV R0, #0'') ''SWI 0''"

definition getCurrentCode :: "CodeGenerator \<Rightarrow> string" where
  "getCurrentCode g = concat (map (\<lambda>code. code @ [CHR 0x0A]) (assemblyCode g))"

text \<open>\<^verbatim>\<open>generateAssembly\<close> of the three expression classes; the result is the register name.\<close>

fun generateAssembly_expr :: "Expression \<Rightarrow> CodeGenerator \<Rightarrow> string \<times> CodeGenerator" where
  "generateAssembly_expr (Number v) g =
     (let (reg, g1) = getNewRegister g
      in (reg, emit g1 (''MOV '' @ reg @ '', #'' @ to_string v)))"
| "generateAssembly_expr (Identifier name) g =
     (let (reg, g1) = getNewRegister g;
          (location, g2) = getVariableLocation g1 name
      in (reg, emit g2 (''LDR '' @ reg @ '', ['' @ location @ '']'')))"
| "generateAssembly_expr (BinaryOp op left right) g =
     (let (leftReg, g1) = generateAssembly_expr left g;
          (rightReg, g2) = generateAssembly_expr right g1;
          (resultReg, g3) = getNewRegister g2
      in if op = ''+'' then
           (resultReg, emit g3 (''ADD '' @ resultReg @ '', '' @ leftReg @ '', '' @ rightReg))
         else if op = ''-'' then
           (resultReg, emit g3 (''SUB '' @ resultReg @ '', '' @ leftReg @ '', '' @ rightReg))
         else if op = ''=='' then
           (resultReg,
            emit (emit (emit g3 (''CMP '' @ leftReg @ '', '' @ rightReg))
                    (''MOV '' @ resultReg @ '', #0''))
              (''MOVEQ '' @ resultReg @ '', #1''))
         else (resultReg, g3))"

text \<open>
  \<^verbatim>\<open>generateAssembly\<close> of the four statement classes. Each of them returns the empty
  string, which no caller reads; the model returns the generator only.
\<close>

fun generateAssembly_stmt :: "Statement \<Rightarrow> CodeGenerator \<Rightarrow> CodeGenerator" where
  "generateAssembly_stmt (Assignment identifier exp) g =
     (let (valueReg, g1) = generateAssembly_expr exp g;
          (location, g2) = getVariableLocation g1 identifier
      in emit g2 (''STR '' @ valueReg @ '', ['' @ location @ '']''))"
| "generateAssembly_stmt (VarDeclaration ty name initializer) g =
     (let g1 = declareVariable g name
      in case initializer of
           None \<Rightarrow> g1
         | Some init \<Rightarrow>
             (let (valueReg, g2) = generateAssembly_expr init g1;
                  (location, g3) = getVariableLocation g2 name
              in emit g3 (''STR '' @ valueReg @ '', ['' @ location @ '']'')))"
| "generateAssembly_stmt (Block statements) g = fold generateAssembly_stmt statements g"
| "generateAssembly_stmt (If condition thenBranch) g =
     (let (condReg, g1) = generateAssembly_expr condition g;
          (endLabel, g2) = getNewLabel g1;
          g3 = emit g2 (''CMP '' @ condReg @ '', #1'');
          g4 = emit g3 (''BNE '' @ endLabel);
          g5 = generateAssembly_stmt thenBranch g4
      in emit g5 (endLabel @ '':''))"

subsection \<open>The driver\<close>

text \<open>The code-generation steps of \<^verbatim>\<open>main\<close> (lines 499 to 509), for a parsed program.\<close>

definition main_codegen :: "Statement \<Rightarrow> CodeGenerator" where
  "main_codegen ast =
     generateEpilogue (generateAssembly_stmt ast (generatePostlude (generatePrelude new_CodeGenerator)))"


text \<open>
  \<^verbatim>\<open>main\<close>, from the content of the input file to the text written to the output
  file, or to the exception that \<^verbatim>\<open>main\<close> catches and reports with exit status 1, before
  the output file is opened. Failures to open a file are outside the model.
\<close>

definition main :: "string \<Rightarrow> error + string" where
  "main content =
     (case parse content of
        Inl ex \<Rightarrow> Inl ex
      | Inr ast \<Rightarrow> Inr (getCurrentCode (main_codegen ast)))"

subsection \<open>Notions used to state the properties of the code generator\<close>

text \<open>The data-slot line that \<^verbatim>\<open>declareVariable\<close> emits for a variable.\<close>

definition slot_line :: "string \<Rightarrow> string" where
  "slot_line name = name @ '': .word 0''"

text \<open>
  The counters start at 0 and only \<^verbatim>\<open>getNewRegister\<close> and \<^verbatim>\<open>getNewLabel\<close> change them,
  by one per call. \<open>register_name k\<close> and \<open>label_name k\<close> are the names handed out when
  the counter reads \<open>k\<close>. In a state with counter \<open>n\<close> the names handed out so far are
  those of the counter values before \<open>n\<close> in the order of allocation, which is the
  unsigned order of the words (\<open>0, \<dots>, 2^31 - 1, - 2^31, \<dots>, - 1\<close> as signed numbers), as
  long as the counter has not come back to 0.
\<close>

definition register_name :: "32 word \<Rightarrow> string" where
  "register_name k = ''R'' @ to_string (sint k)"

definition label_name :: "32 word \<Rightarrow> string" where
  "label_name k = ''L'' @ to_string (sint k)"

definition issued_registers :: "CodeGenerator \<Rightarrow> string set" where
  "issued_registers g = register_name ` {..<registerCount g}"

definition issued_labels :: "CodeGenerator \<Rightarrow> string set" where
  "issued_labels g = label_name ` {..<labelCount g}"

text \<open>
  The number of expression evaluations that the evaluation of an expression, or the
  generation of a statement, performs (one per node of an expression tree), and the
  number of \<^verbatim>\<open>If\<close> statements in a statement.
\<close>

fun expr_evaluations :: "Expression \<Rightarrow> nat" where
  "expr_evaluations (Number v) = 1"
| "expr_evaluations (Identifier name) = 1"
| "expr_evaluations (BinaryOp op left right) = expr_evaluations left + expr_evaluations right + 1"

fun stmt_evaluations :: "Statement \<Rightarrow> nat" where
  "stmt_evaluations (Assignment identifier exp) = expr_evaluations exp"
| "stmt_evaluations (VarDeclaration ty name initializer) =
     (case initializer of None \<Rightarrow> 0 | Some init \<Rightarrow> expr_evaluations init)"
| "stmt_evaluations (Block statements) = sum_list (map stmt_evaluations statements)"
| "stmt_evaluations (If condition thenBranch) = expr_evaluations condition + stmt_evaluations thenBranch"

fun stmt_ifs :: "Statement \<Rightarrow> nat" where
  "stmt_ifs (Assignment identifier exp) = 0"
| "stmt_ifs (VarDeclaration ty name initializer) = 0"
| "stmt_ifs (Block statements) = sum_list (map stmt_ifs statements)"
| "stmt_ifs (If condition thenBranch) = 1 + stmt_ifs thenBranch"

text \<open>
  The register names that the evaluations of an expression and of its subexpressions
  return, in the order in which they return: the operands of a \<^verbatim>\<open>BinaryOp\<close> are
  evaluated left then right, the right one in the state that the left one leaves, and
  the \<^verbatim>\<open>BinaryOp\<close> itself returns last.
\<close>

fun expr_registers :: "Expression \<Rightarrow> CodeGenerator \<Rightarrow> string list" where
  "expr_registers (Number v) g = [fst (generateAssembly_expr (Number v) g)]"
| "expr_registers (Identifier name) g = [fst (generateAssembly_expr (Identifier name) g)]"
| "expr_registers (BinaryOp op left right) g =
     expr_registers left g
     @ expr_registers right (snd (generateAssembly_expr left g))
     @ [fst (generateAssembly_expr (BinaryOp op left right) g)]"

text \<open>
  The invariant of the generator that relates the output buffer to the variable table:
  a variable has one slot line in the buffer when it is in the table, and none otherwise.
\<close>

definition slots_consistent :: "CodeGenerator \<Rightarrow> bool" where
  "slots_consistent g =
     (\<forall>name. count_list (assemblyCode g) (slot_line name) = (if variables g name = None then 0 else 1))"

text \<open>The variable names that a tree refers to (declares, assigns or reads).\<close>

fun expr_vars :: "Expression \<Rightarrow> string set" where
  "expr_vars (Number v) = {}"
| "expr_vars (Identifier name) = {name}"
| "expr_vars (BinaryOp op left right) = expr_vars left \<union> expr_vars right"

fun stmt_vars :: "Statement \<Rightarrow> string set" where
  "stmt_vars (Assignment identifier exp) = insert identifier (expr_vars exp)"
| "stmt_vars (VarDeclaration ty name initializer) =
     insert name (case initializer of None \<Rightarrow> {} | Some init \<Rightarrow> expr_vars init)"
| "stmt_vars (Block statements) = (\<Union>s \<in> set statements. stmt_vars s)"
| "stmt_vars (If condition thenBranch) = expr_vars condition \<union> stmt_vars thenBranch"

text \<open>
  The label that \<^verbatim>\<open>If::generateAssembly\<close> allocates when it runs in state \<open>g\<close>: the
  condition is evaluated first, then \<^verbatim>\<open>getNewLabel\<close> is called (lines 303 and 304). The
  then-branch is generated in the state after the compare and the branch instruction
  have been emitted (lines 306 to 309).
\<close>

definition If_endLabel :: "Expression \<Rightarrow> CodeGenerator \<Rightarrow> string" where
  "If_endLabel condition g = fst (getNewLabel (snd (generateAssembly_expr condition g)))"

definition If_body_state :: "Expression \<Rightarrow> CodeGenerator \<Rightarrow> CodeGenerator" where
  "If_body_state condition g =
     (let (condReg, g1) = generateAssembly_expr condition g;
          (endLabel, g2) = getNewLabel g1;
          g3 = emit g2 (''CMP '' @ condReg @ '', #1'')
      in emit g3 (''BNE '' @ endLabel))"

text \<open>
  The register names that the expression evaluations of a statement return, in the
  order in which they return, the statements of a block being generated one after the
  other, each in the state that its predecessor leaves.
\<close>

fun stmt_registers :: "Statement \<Rightarrow> CodeGenerator \<Rightarrow> string list"
  and stmts_registers :: "Statement list \<Rightarrow> CodeGenerator \<Rightarrow> string list" where
  "stmt_registers (Assignment identifier exp) g = expr_registers exp g"
| "stmt_registers (VarDeclaration ty name initializer) g =
     (case initializer of
        None \<Rightarrow> []
      | Some init \<Rightarrow> expr_registers init (declareVariable g name))"
| "stmt_registers (Block statements) g = stmts_registers statements g"
| "stmt_registers (If condition thenBranch) g =
     expr_registers condition g @ stmt_registers thenBranch (If_body_state condition g)"
| "stmts_registers [] g = []"
| "stmts_registers (s # ss) g =
     stmt_registers s g @ stmts_registers ss (generateAssembly_stmt s g)"

text \<open>The line that closes an \<^verbatim>\<open>If\<close> whose label was allocated at counter value \<open>k\<close>.\<close>

definition label_line :: "32 word \<Rightarrow> string" where
  "label_line k = label_name k @ '':''"


section \<open>Properties\<close>

subsection \<open>Decimal numerals\<close>

lemma digit_char_isdigit: "d < 10 \<Longrightarrow> isdigit (digit_char d)"
proof -
  assume "d < 10"
  then have "d \<in> {0,1,2,3,4,5,6,7,8,9}" by auto
  then show ?thesis by (auto simp: digit_char_def isdigit_def)
qed

lemma digit_val_digit_char: "d < 10 \<Longrightarrow> digit_val (digit_char d) = d"
proof -
  assume "d < 10"
  then have "d \<in> {0,1,2,3,4,5,6,7,8,9}" by auto
  then show ?thesis by (auto simp: digit_char_def digit_val_def)
qed

lemma digits_ne: "digits n \<noteq> []"
  by (subst digits.simps) simp

lemma digits_isdigit: "c \<in> set (digits n) \<Longrightarrow> isdigit c"
proof (induction n arbitrary: c rule: digits.induct)
  case (1 n)
  show ?case
  proof (cases "n < 10")
    case True
    with "1.prems" show ?thesis
      by (subst (asm) digits.simps) (simp add: digit_char_isdigit)
  next
    case False
    with "1.prems" have "c \<in> set (digits (n div 10)) \<or> c = digit_char (n mod 10)"
      by (subst (asm) digits.simps) auto
    with False "1.IH" show ?thesis
      by (auto simp: digit_char_isdigit)
  qed
qed

lemma digits_val_snoc: "digits_val (s @ [c]) = 10 * digits_val s + digit_val c"
  by (simp add: digits_val_def)

lemma digits_val_digits: "digits_val (digits n) = n"
proof (induction n rule: digits.induct)
  case (1 n)
  show ?case
  proof (cases "n < 10")
    case True
    then show ?thesis
      by (subst digits.simps) (simp add: digits_val_def digit_val_digit_char)
  next
    case False
    with "1.IH" have "digits_val (digits (n div 10)) = n div 10" by simp
    with False show ?thesis
      by (subst digits.simps) (simp add: digits_val_snoc digit_val_digit_char)
  qed
qed

lemma digits_inj: "digits a = digits b \<Longrightarrow> a = b"
  by (metis digits_val_digits)

lemma to_string_nat_inj: "to_string (int a) = to_string (int b) \<Longrightarrow> a = b"
  by (simp add: to_string_def digits_inj)

lemma digits_no_minus: "CHR ''-'' \<notin> set (digits n)"
  using digits_isdigit [of "CHR ''-''" n] by (auto simp: isdigit_def)

lemma digits_not_minus: "digits n \<noteq> CHR ''-'' # ds"
  using digits_no_minus [of n] by auto

lemma to_string_inj: "to_string a = to_string b \<Longrightarrow> a = b"
proof -
  assume eq: "to_string a = to_string b"
  consider "a < 0" "b < 0" | "a < 0" "\<not> b < 0" | "\<not> a < 0" "b < 0" | "\<not> a < 0" "\<not> b < 0"
    by blast
  then show ?thesis
  proof cases
    case 1
    with eq have "nat (- a) = nat (- b)" by (simp add: to_string_def digits_inj)
    with 1 show ?thesis by simp
  next
    case 2
    with eq digits_not_minus [of "nat b" "digits (nat (- a))"] show ?thesis
      by (simp add: to_string_def)
  next
    case 3
    with eq digits_not_minus [of "nat a" "digits (nat (- b))"] show ?thesis
      by (simp add: to_string_def)
  next
    case 4
    with eq have "nat a = nat b" by (simp add: to_string_def digits_inj)
    with 4 show ?thesis by simp
  qed
qed

lemma digits_last_isdigit: "isdigit (last (digits n))"
  using digits_ne [of n] digits_isdigit [of "last (digits n)" n] by simp

lemma to_string_last_isdigit: "isdigit (last (to_string v))"
  by (simp add: to_string_def digits_last_isdigit digits_ne)

lemma to_string_last_not_colon: "last (to_string v) \<noteq> CHR '':''"
  using to_string_last_isdigit [of v] by (auto simp: isdigit_def)

lemma to_string_ne: "to_string v \<noteq> []"
  by (simp add: to_string_def digits_ne)

lemma isdigit_not_space: "isdigit c \<Longrightarrow> c \<noteq> CHR '' ''"
  by (auto simp: isdigit_def)

lemma to_string_no_space: "c \<in> set (to_string v) \<Longrightarrow> c \<noteq> CHR '' ''"
  by (auto simp: to_string_def dest: digits_isdigit isdigit_not_space split: if_splits)

lemma last_butlast_tail:
  "d \<noteq> [] \<Longrightarrow> last (butlast (pre @ c # d)) \<in> insert c (set d)"
  by (cases d rule: rev_cases) (auto simp: butlast_append)

lemma slot_line_last2: "last (butlast (n @ '': .word 0'')) = CHR '' ''"
  by (simp add: butlast_append)

lemma not_slot_tail:
  assumes "d \<noteq> []" "\<And>x. x \<in> set d \<Longrightarrow> x \<noteq> CHR '' ''" "c \<noteq> CHR '' ''"
  shows "pre @ c # d \<noteq> n @ '': .word 0''"
proof
  assume eq: "pre @ c # d = n @ '': .word 0''"
  have "last (butlast (pre @ c # d)) \<in> insert c (set d)"
    using assms(1) by (rule last_butlast_tail)
  with eq have "CHR '' '' \<in> insert c (set d)"
    by (simp only: slot_line_last2)
  with assms(2,3) show False by auto
qed

subsection \<open>The generator's primitive operations\<close>

lemma getNewRegister_fst: "fst (getNewRegister g) = ''R'' @ to_string (sint (registerCount g))"
  by (simp add: getNewRegister_def)

lemma getNewRegister_simps [simp]:
  "registerCount (snd (getNewRegister g)) = registerCount g + 1"
  "labelCount (snd (getNewRegister g)) = labelCount g"
  "assemblyCode (snd (getNewRegister g)) = assemblyCode g"
  "variables (snd (getNewRegister g)) = variables g"
  by (simp_all add: getNewRegister_def)

lemma getNewLabel_fst: "fst (getNewLabel g) = ''L'' @ to_string (sint (labelCount g))"
  by (simp add: getNewLabel_def)

lemma getNewLabel_simps [simp]:
  "registerCount (snd (getNewLabel g)) = registerCount g"
  "labelCount (snd (getNewLabel g)) = labelCount g + 1"
  "assemblyCode (snd (getNewLabel g)) = assemblyCode g"
  "variables (snd (getNewLabel g)) = variables g"
  by (simp_all add: getNewLabel_def)

lemma emit_simps [simp]:
  "registerCount (emit g code) = registerCount g"
  "labelCount (emit g code) = labelCount g"
  "assemblyCode (emit g code) = assemblyCode g @ [code]"
  "variables (emit g code) = variables g"
  by (simp_all add: emit_def)

lemma declareVariable_simps [simp]:
  "registerCount (declareVariable g name) = registerCount g"
  "labelCount (declareVariable g name) = labelCount g"
  "assemblyCode (declareVariable g name) =
     assemblyCode g @ (if variables g name = None then [slot_line name] else [])"
  "dom (variables (declareVariable g name)) = insert name (dom (variables g))"
  by (auto simp: declareVariable_def slot_line_def)

lemma declareVariable_declared: "variables (declareVariable g name) name \<noteq> None"
  by (simp add: declareVariable_def)

lemma getVariableLocation_snd [simp]:
  "snd (getVariableLocation g name) = declareVariable g name"
proof (cases "variables g name")
  case None
  with declareVariable_declared [of g name] show ?thesis
    by (auto simp: getVariableLocation_def)
next
  case (Some loc)
  then show ?thesis
    by (simp add: getVariableLocation_def declareVariable_def)
qed

lemma slot_line_inj [simp]: "slot_line a = slot_line b \<longleftrightarrow> a = b"
  by (simp add: slot_line_def)

lemma slots_consistent_emit:
  "slots_consistent g \<Longrightarrow> (\<And>name. code \<noteq> slot_line name) \<Longrightarrow> slots_consistent (emit g code)"
  by (simp add: slots_consistent_def)

lemma slots_consistent_getNewRegister:
  "slots_consistent g \<Longrightarrow> slots_consistent (snd (getNewRegister g))"
  by (simp add: slots_consistent_def)

lemma slots_consistent_getNewLabel:
  "slots_consistent g \<Longrightarrow> slots_consistent (snd (getNewLabel g))"
  by (simp add: slots_consistent_def)

lemma slots_consistent_declareVariable:
  "slots_consistent g \<Longrightarrow> slots_consistent (declareVariable g name)"
  by (auto simp: slots_consistent_def declareVariable_def emit_def slot_line_def)


subsection \<open>No instruction line is a slot line\<close>

lemma not_slot_reg_tail: "pre @ CHR ''R'' # to_string v \<noteq> slot_line name"
  unfolding slot_line_def
  by (rule not_slot_tail) (auto simp: to_string_ne dest: to_string_no_space)

lemma not_slot_label_tail: "pre @ CHR ''L'' # to_string v \<noteq> slot_line name"
  unfolding slot_line_def
  by (rule not_slot_tail) (auto simp: to_string_ne dest: to_string_no_space)

lemma not_slot_imm_tail: "pre @ CHR ''#'' # to_string v \<noteq> slot_line name"
  unfolding slot_line_def
  by (rule not_slot_tail) (auto simp: to_string_ne dest: to_string_no_space)

lemma not_slot_last: "last code \<noteq> CHR ''0'' \<Longrightarrow> code \<noteq> [] \<Longrightarrow> code \<noteq> slot_line name"
  by (auto simp: slot_line_def)

lemma MOV_not_slot: "''MOV '' @ reg @ '', #'' @ to_string v \<noteq> slot_line name"
  using not_slot_imm_tail [of "''MOV '' @ reg @ '', ''" v name] by simp

lemma LDR_not_slot: "''LDR '' @ reg @ '', ['' @ location @ '']'' \<noteq> slot_line name"
  using not_slot_last [of "''LDR '' @ reg @ '', ['' @ location @ '']''" name] by simp

lemma STR_not_slot: "''STR '' @ reg @ '', ['' @ location @ '']'' \<noteq> slot_line name"
  using not_slot_last [of "''STR '' @ reg @ '', ['' @ location @ '']''" name] by simp

lemma ADD_not_slot:
  "''ADD '' @ res @ '', '' @ l @ '', '' @ ''R'' @ to_string v \<noteq> slot_line name"
  using not_slot_reg_tail [of "''ADD '' @ res @ '', '' @ l @ '', ''" v name] by simp

lemma SUB_not_slot:
  "''SUB '' @ res @ '', '' @ l @ '', '' @ ''R'' @ to_string v \<noteq> slot_line name"
  using not_slot_reg_tail [of "''SUB '' @ res @ '', '' @ l @ '', ''" v name] by simp

lemma CMP_not_slot: "''CMP '' @ l @ '', '' @ ''R'' @ to_string v \<noteq> slot_line name"
  using not_slot_reg_tail [of "''CMP '' @ l @ '', ''" v name] by simp

lemma MOV0_not_slot: "''MOV '' @ res @ '', #0'' \<noteq> slot_line name"
  using MOV_not_slot [of res 0 name] by (simp add: to_string_def digits.simps digit_char_def)

lemma MOVEQ_not_slot: "''MOVEQ '' @ res @ '', #1'' \<noteq> slot_line name"
  using not_slot_last [of "''MOVEQ '' @ res @ '', #1''" name] by simp

lemma CMP1_not_slot: "''CMP '' @ c @ '', #1'' \<noteq> slot_line name"
  using not_slot_last [of "''CMP '' @ c @ '', #1''" name] by simp

lemma BNE_not_slot: "''BNE '' @ ''L'' @ to_string v \<noteq> slot_line name"
  using not_slot_label_tail [of "''BNE ''" v name] by simp

lemma label_not_slot: "l @ '':'' \<noteq> slot_line name"
  using not_slot_last [of "l @ '':''" name] by simp

lemmas not_slot_lines = MOV_not_slot LDR_not_slot STR_not_slot ADD_not_slot SUB_not_slot
  CMP_not_slot MOV0_not_slot MOVEQ_not_slot CMP1_not_slot BNE_not_slot label_not_slot


lemmas not_slot_simps = not_slot_lines [simplified]

subsection \<open>Code generation for expressions\<close>

lemma expr_labelCount [simp]:
  "labelCount (snd (generateAssembly_expr e g)) = labelCount g"
  by (induction e arbitrary: g) (simp_all add: Let_def case_prod_beta)

lemma expr_result:
  "fst (generateAssembly_expr e g) =
     ''R'' @ to_string (sint (registerCount (snd (generateAssembly_expr e g)) - 1))
   \<and> registerCount (snd (generateAssembly_expr e g))
       = registerCount g + of_nat (expr_evaluations e)"
proof (induction e arbitrary: g)
  case (Number v)
  show ?case by (simp add: Let_def case_prod_beta getNewRegister_fst)
next
  case (Identifier name)
  show ?case by (simp add: Let_def case_prod_beta getNewRegister_fst)
next
  case (BinaryOp op left right)
  let ?g1 = "snd (generateAssembly_expr left g)"
  let ?g2 = "snd (generateAssembly_expr right ?g1)"
  from BinaryOp.IH(1) [of g]
  have "registerCount ?g1 = registerCount g + of_nat (expr_evaluations left)" by simp
  moreover from BinaryOp.IH(2) [of ?g1]
  have "registerCount ?g2 = registerCount ?g1 + of_nat (expr_evaluations right)" by simp
  ultimately show ?case
    by (simp add: Let_def case_prod_beta getNewRegister_fst)
qed

lemma expr_vars_dom [simp]:
  "dom (variables (snd (generateAssembly_expr e g))) = dom (variables g) \<union> expr_vars e"
  by (induction e arbitrary: g) (auto simp: Let_def case_prod_beta)

lemma expr_prefix: "prefix (assemblyCode g) (assemblyCode (snd (generateAssembly_expr e g)))"
proof (induction e arbitrary: g)
  case (BinaryOp op left right)
  let ?g1 = "snd (generateAssembly_expr left g)"
  let ?g2 = "snd (generateAssembly_expr right ?g1)"
  have "prefix (assemblyCode g) (assemblyCode ?g1)" by (rule BinaryOp.IH(1))
  moreover have "prefix (assemblyCode ?g1) (assemblyCode ?g2)" by (rule BinaryOp.IH(2))
  ultimately have "prefix (assemblyCode g) (assemblyCode ?g2)" by (rule prefix_order.trans)
  then show ?case
    by (auto simp: Let_def case_prod_beta prefix_def)
qed (auto simp: Let_def case_prod_beta prefix_def)

lemma expr_slots_consistent:
  "slots_consistent g \<Longrightarrow> slots_consistent (snd (generateAssembly_expr e g))"
proof (induction e arbitrary: g)
  case (Number v)
  then show ?case
    by (simp add: Let_def case_prod_beta slots_consistent_emit slots_consistent_getNewRegister
        not_slot_simps)
next
  case (Identifier name)
  then show ?case
    by (simp add: Let_def case_prod_beta slots_consistent_emit slots_consistent_getNewRegister
        slots_consistent_declareVariable not_slot_simps)
next
  case (BinaryOp op left right)
  let ?g1 = "snd (generateAssembly_expr left g)"
  let ?g2 = "snd (generateAssembly_expr right ?g1)"
  have "slots_consistent ?g2"
    using BinaryOp.IH BinaryOp.prems by simp
  then have g3: "slots_consistent (snd (getNewRegister ?g2))"
    by (rule slots_consistent_getNewRegister)
  have rr: "fst (generateAssembly_expr right ?g1) =
      ''R'' @ to_string (sint (registerCount ?g2 - 1))"
    using expr_result [of right ?g1] by simp
  show ?case using g3
    by (simp add: Let_def case_prod_beta slots_consistent_emit rr not_slot_simps)
qed

subsection \<open>Code generation for statements\<close>

lemma fold_invariant:
  "(\<And>s g. s \<in> set ss \<Longrightarrow> Q g \<Longrightarrow> Q (f s g)) \<Longrightarrow> Q g \<Longrightarrow> Q (fold f ss g)"
  by (induction ss arbitrary: g) simp_all

lemma stmt_counters:
  "registerCount (generateAssembly_stmt s g) = registerCount g + of_nat (stmt_evaluations s)
   \<and> labelCount (generateAssembly_stmt s g) = labelCount g + of_nat (stmt_ifs s)"
proof (induction s arbitrary: g)
  case (Assignment ident exp)
  show ?case using expr_result [of exp g]
    by (simp add: Let_def case_prod_beta)
next
  case (VarDeclaration ty name initializer)
  show ?case
  proof (cases initializer)
    case None
    then show ?thesis by simp
  next
    case (Some init)
    then show ?thesis using expr_result [of init "declareVariable g name"]
      by (simp add: Let_def case_prod_beta)
  qed
next
  case (Block statements)
  then have "registerCount (fold generateAssembly_stmt statements g)
        = registerCount g + of_nat (sum_list (map stmt_evaluations statements))
      \<and> labelCount (fold generateAssembly_stmt statements g)
        = labelCount g + of_nat (sum_list (map stmt_ifs statements))"
  proof (induction statements arbitrary: g)
    case Nil
    show ?case by simp
  next
    case (Cons s ss)
    have "registerCount (fold generateAssembly_stmt ss (generateAssembly_stmt s g))
          = registerCount (generateAssembly_stmt s g) + of_nat (sum_list (map stmt_evaluations ss))
        \<and> labelCount (fold generateAssembly_stmt ss (generateAssembly_stmt s g))
          = labelCount (generateAssembly_stmt s g) + of_nat (sum_list (map stmt_ifs ss))"
      using Cons.IH [of "generateAssembly_stmt s g"] Cons.prems by simp
    moreover have "registerCount (generateAssembly_stmt s g)
          = registerCount g + of_nat (stmt_evaluations s)
        \<and> labelCount (generateAssembly_stmt s g) = labelCount g + of_nat (stmt_ifs s)"
      using Cons.prems [of s g] by simp
    ultimately show ?case by simp
  qed
  then show ?case by simp
next
  case (If condition thenBranch)
  let ?g1 = "snd (generateAssembly_expr condition g)"
  let ?g4 = "emit (emit (snd (getNewLabel ?g1))
                 (''CMP '' @ fst (generateAssembly_expr condition g) @ '', #1''))
               (''BNE '' @ fst (getNewLabel ?g1))"
  have "registerCount (generateAssembly_stmt thenBranch ?g4)
        = registerCount ?g4 + of_nat (stmt_evaluations thenBranch)
      \<and> labelCount (generateAssembly_stmt thenBranch ?g4)
        = labelCount ?g4 + of_nat (stmt_ifs thenBranch)"
    by (rule If.IH)
  then show ?case using expr_result [of condition g]
    by (simp add: Let_def case_prod_beta)
qed

lemma stmt_slots_consistent:
  "slots_consistent g \<Longrightarrow> slots_consistent (generateAssembly_stmt s g)"
proof (induction s arbitrary: g)
  case (Assignment ident exp)
  then show ?case
    by (simp add: Let_def case_prod_beta slots_consistent_emit expr_slots_consistent
        slots_consistent_declareVariable not_slot_simps)
next
  case (VarDeclaration ty name initializer)
  then show ?case
    by (cases initializer)
      (simp_all add: Let_def case_prod_beta slots_consistent_emit expr_slots_consistent
        slots_consistent_declareVariable not_slot_simps)
next
  case (Block statements)
  have "slots_consistent (fold generateAssembly_stmt statements g)"
    using Block.IH Block.prems by (rule fold_invariant)
  then show ?case by simp
next
  case (If condition thenBranch)
  let ?g1 = "snd (generateAssembly_expr condition g)"
  let ?g4 = "emit (emit (snd (getNewLabel ?g1))
                 (''CMP '' @ fst (generateAssembly_expr condition g) @ '', #1''))
               (''BNE '' @ fst (getNewLabel ?g1))"
  have "slots_consistent ?g1" using If.prems by (rule expr_slots_consistent)
  then have "slots_consistent ?g4"
    by (simp add: slots_consistent_emit slots_consistent_getNewLabel getNewLabel_fst not_slot_simps)
  then have "slots_consistent (generateAssembly_stmt thenBranch ?g4)" by (rule If.IH)
  then show ?case
    by (simp add: Let_def case_prod_beta slots_consistent_emit not_slot_simps)
qed

lemma stmt_vars_dom:
  "dom (variables (generateAssembly_stmt s g)) = dom (variables g) \<union> stmt_vars s"
proof (induction s arbitrary: g)
  case (Assignment ident exp)
  show ?case by (auto simp: Let_def case_prod_beta)
next
  case (VarDeclaration ty name initializer)
  show ?case by (cases initializer) (auto simp: Let_def case_prod_beta)
next
  case (Block statements)
  then have "dom (variables (fold generateAssembly_stmt statements g))
      = dom (variables g) \<union> (\<Union>s \<in> set statements. stmt_vars s)"
  proof (induction statements arbitrary: g)
    case Nil
    show ?case by simp
  next
    case (Cons s ss)
    have "dom (variables (fold generateAssembly_stmt ss (generateAssembly_stmt s g)))
        = dom (variables (generateAssembly_stmt s g)) \<union> (\<Union>s \<in> set ss. stmt_vars s)"
      using Cons.IH [of "generateAssembly_stmt s g"] Cons.prems by simp
    moreover have "dom (variables (generateAssembly_stmt s g)) = dom (variables g) \<union> stmt_vars s"
      using Cons.prems [of s g] by simp
    ultimately show ?case by auto
  qed
  then show ?case by simp
next
  case (If condition thenBranch)
  show ?case by (auto simp: Let_def case_prod_beta If.IH)
qed

lemma stmt_prefix: "prefix (assemblyCode g) (assemblyCode (generateAssembly_stmt s g))"
proof (induction s arbitrary: g)
  case (Assignment ident exp)
  have "prefix (assemblyCode g) (assemblyCode (snd (generateAssembly_expr exp g)))"
    by (rule expr_prefix)
  then show ?case by (auto simp: Let_def case_prod_beta prefix_def)
next
  case (VarDeclaration ty name initializer)
  show ?case
  proof (cases initializer)
    case None
    then show ?thesis by simp
  next
    case (Some init)
    have "prefix (assemblyCode (declareVariable g name))
        (assemblyCode (snd (generateAssembly_expr init (declareVariable g name))))"
      by (rule expr_prefix)
    with Some show ?thesis by (auto simp: Let_def case_prod_beta prefix_def)
  qed
next
  case (Block statements)
  have "prefix (assemblyCode g) (assemblyCode (fold generateAssembly_stmt statements g))"
  proof (rule fold_invariant [where Q = "\<lambda>h::CodeGenerator. prefix (assemblyCode g) (assemblyCode h)"])
    fix s and h :: CodeGenerator
    assume "s \<in> set statements" and "prefix (assemblyCode g) (assemblyCode h)"
    with Block.IH [of s h]
    show "prefix (assemblyCode g) (assemblyCode (generateAssembly_stmt s h))"
      by (blast intro: prefix_order.trans)
  qed simp
  then show ?case by simp
next
  case (If condition thenBranch)
  let ?g1 = "snd (generateAssembly_expr condition g)"
  let ?g4 = "emit (emit (snd (getNewLabel ?g1))
                 (''CMP '' @ fst (generateAssembly_expr condition g) @ '', #1''))
               (''BNE '' @ fst (getNewLabel ?g1))"
  have "prefix (assemblyCode g) (assemblyCode ?g1)" by (rule expr_prefix)
  then have "prefix (assemblyCode g) (assemblyCode ?g4)" by (auto simp: prefix_def)
  moreover have "prefix (assemblyCode ?g4) (assemblyCode (generateAssembly_stmt thenBranch ?g4))"
    by (rule If.IH)
  ultimately have "prefix (assemblyCode g) (assemblyCode (generateAssembly_stmt thenBranch ?g4))"
    by (rule prefix_order.trans)
  then show ?case by (auto simp: Let_def case_prod_beta prefix_def)
qed

subsection \<open>Names and counters\<close>

lemma sint_inj: "sint (a :: 32 word) = sint b \<longleftrightarrow> a = b"
  by (auto simp: signed_word_eqI)

lemma register_name_inj [simp]: "register_name a = register_name b \<longleftrightarrow> a = b"
  by (auto simp: register_name_def sint_inj dest: to_string_inj)

lemma label_name_inj [simp]: "label_name a = label_name b \<longleftrightarrow> a = b"
  by (auto simp: label_name_def sint_inj dest: to_string_inj)

lemma label_line_inj [simp]: "label_line a = label_line b \<longleftrightarrow> a = b"
  by (simp add: label_line_def)

lemma register_name_issued: "register_name k \<in> issued_registers g \<longleftrightarrow> k < registerCount g"
  by (auto simp: issued_registers_def)

lemma label_name_issued: "label_name k \<in> issued_labels g \<longleftrightarrow> k < labelCount g"
  by (auto simp: issued_labels_def)

lemma getNewRegister_name: "fst (getNewRegister g) = register_name (registerCount g)"
  by (simp add: getNewRegister_def register_name_def)

lemma getNewLabel_name: "fst (getNewLabel g) = label_name (labelCount g)"
  by (simp add: getNewLabel_def label_name_def)

lemma If_endLabel_eq: "If_endLabel condition g = label_name (labelCount g)"
  by (simp add: If_endLabel_def getNewLabel_name)

lemma expr_result_name:
  "fst (generateAssembly_expr e g)
     = register_name (registerCount g + of_nat (expr_evaluations e) - 1)"
  using expr_result [of e g] by (simp add: register_name_def)

subsection \<open>Arithmetic of the counters\<close>

lemma unat_add_of_nat:
  fixes c :: "32 word"
  shows "unat c + n < 2 ^ 32 \<Longrightarrow> unat (c + of_nat n) = unat c + n"
  by (simp add: unat_word_ariths unat_of_nat)

lemma in_range_iff:
  fixes c :: "32 word"
  assumes "unat c + n < 2 ^ 32"
  shows "(c \<le> k \<and> k < c + of_nat n) \<longleftrightarrow> (unat c \<le> unat k \<and> unat k < unat c + n)"
  using assms by (simp add: word_le_nat_alt word_less_nat_alt unat_add_of_nat)

lemma offset_eq_iff:
  fixes c :: "32 word"
  assumes "unat c + i < 2 ^ 32" "unat c + j < 2 ^ 32"
  shows "c + of_nat i = c + of_nat j \<longleftrightarrow> i = j"
proof
  assume "c + of_nat i = c + of_nat j"
  then have "unat (c + of_nat i) = unat (c + of_nat j)" by simp
  with assms show "i = j" by (simp add: unat_add_of_nat)
qed simp

lemma offset_not_less:
  fixes c :: "32 word"
  shows "unat c + i < 2 ^ 32 \<Longrightarrow> \<not> c + of_nat i < c"
  by (simp add: word_less_nat_alt unat_add_of_nat)

lemma less_offset_iff:
  fixes c :: "32 word"
  assumes "unat c + n < 2 ^ 32"
  shows "k < c + of_nat n \<longleftrightarrow> k < c \<or> (\<exists>i<n. k = c + of_nat i)"
proof
  assume "k < c + of_nat n"
  with assms have lt: "unat k < unat c + n" by (simp add: word_less_nat_alt unat_add_of_nat)
  show "k < c \<or> (\<exists>i<n. k = c + of_nat i)"
  proof (cases "k < c")
    case False
    then have ge: "unat c \<le> unat k" by (simp add: word_less_nat_alt)
    let ?i = "unat k - unat c"
    from lt ge have i: "?i < n" by simp
    with assms have "unat (c + of_nat ?i) = unat c + ?i" by (simp add: unat_add_of_nat)
    with ge have "unat (c + of_nat ?i) = unat k" by simp
    then have "k = c + of_nat ?i" by (simp add: word_unat_eq_iff)
    with i show ?thesis by blast
  qed simp
next
  assume "k < c \<or> (\<exists>i<n. k = c + of_nat i)"
  then show "k < c + of_nat n"
  proof
    assume "k < c"
    with assms show ?thesis by (simp add: word_less_nat_alt unat_add_of_nat)
  next
    assume "\<exists>i<n. k = c + of_nat i"
    then obtain i where i: "i < n" "k = c + of_nat i" by blast
    with assms have "unat k = unat c + i" by (simp add: unat_add_of_nat)
    with assms i show ?thesis by (simp add: word_less_nat_alt unat_add_of_nat)
  qed
qed

subsection \<open>The names returned by the evaluations of an expression\<close>

lemma map_upt_add: "map f [0..<a + b] = map f [0..<a] @ map (\<lambda>i. f (a + i)) [0..<b]"
  by (induction b) simp_all

lemma expr_registers_eq:
  "expr_registers e g
     = map (\<lambda>i. register_name (registerCount g + of_nat i)) [0..<expr_evaluations e]"
proof (induction e arbitrary: g)
  case (Number v)
  show ?case using expr_result_name [of "Number v" g] by simp
next
  case (Identifier name)
  show ?case using expr_result_name [of "Identifier name" g] by simp
next
  case (BinaryOp op left right)
  let ?c = "registerCount g"
  let ?a = "expr_evaluations left" and ?b = "expr_evaluations right"
  let ?f = "\<lambda>i. register_name (?c + of_nat i)"
  have c1: "registerCount (snd (generateAssembly_expr left g)) = ?c + of_nat ?a"
    using expr_result [of left g] by simp
  have l: "expr_registers left g = map ?f [0..<?a]" by (rule BinaryOp.IH(1))
  have r: "expr_registers right (snd (generateAssembly_expr left g))
      = map (\<lambda>i. ?f (?a + i)) [0..<?b]"
    using BinaryOp.IH(2) [of "snd (generateAssembly_expr left g)"]
    by (simp add: c1 add.assoc)
  have res: "fst (generateAssembly_expr (BinaryOp op left right) g) = ?f (?a + ?b)"
    using expr_result_name [of "BinaryOp op left right" g] by simp
  have "expr_registers (BinaryOp op left right) g
      = map ?f [0..<?a] @ map (\<lambda>i. ?f (?a + i)) [0..<?b] @ [?f (?a + ?b)]"
    by (simp only: expr_registers.simps l r res)
  also have "\<dots> = map ?f [0..<?a + ?b] @ [?f (?a + ?b)]"
    by (simp only: map_upt_add [of ?f ?a ?b] append_assoc)
  also have "\<dots> = map ?f [0..<expr_evaluations (BinaryOp op left right)]"
    by simp
  finally show ?case .
qed

lemma names_distinct:
  fixes c :: "32 word"
  assumes "unat c + n < 2 ^ 32"
  shows "distinct (map (\<lambda>i. register_name (c + of_nat i)) [0..<n])"
proof -
  have "inj_on (\<lambda>i. register_name (c + of_nat i)) {0..<n}"
  proof (rule inj_onI)
    fix i j assume "i \<in> {0..<n}" "j \<in> {0..<n}"
      and "register_name (c + of_nat i) = register_name (c + of_nat j)"
    with assms show "i = j"
      using offset_eq_iff [of c i j] by simp
  qed
  then show ?thesis by (simp add: distinct_map)
qed

lemma names_fresh:
  fixes c :: "32 word"
  assumes "unat c + n < 2 ^ 32"
  shows "set (map (\<lambda>i. register_name (c + of_nat i)) [0..<n]) \<inter> register_name ` {..<c} = {}"
proof -
  have "\<not> c + of_nat i < c" if "i < n" for i
    using that assms offset_not_less [of c i] by simp
  then show ?thesis by auto
qed

lemma names_issued:
  fixes c :: "32 word"
  assumes "unat c + n < 2 ^ 32"
  shows "register_name ` {..<c + of_nat n}
     = register_name ` {..<c} \<union> set (map (\<lambda>i. register_name (c + of_nat i)) [0..<n])"
proof -
  have "k \<in> {..<c + of_nat n} \<longleftrightarrow> k \<in> {..<c} \<union> (\<lambda>i. c + of_nat i) ` {..<n}" for k
    unfolding lessThan_iff less_offset_iff [OF assms] Un_iff image_iff Bex_def lessThan_iff
    by (rule refl)
  then have "{..<c + of_nat n} = {..<c} \<union> (\<lambda>i. c + of_nat i) ` {..<n}"
    by (rule set_eqI)
  then show ?thesis by (simp add: image_Un image_image atLeast0LessThan)
qed

subsection \<open>The names returned by the evaluations of a statement\<close>

lemma If_body_state_simps [simp]:
  "registerCount (If_body_state condition g) = registerCount (snd (generateAssembly_expr condition g))"
  "labelCount (If_body_state condition g) = labelCount g + 1"
  "assemblyCode (If_body_state condition g)
     = assemblyCode (snd (generateAssembly_expr condition g))
       @ [''CMP '' @ fst (generateAssembly_expr condition g) @ '', #1'',
          ''BNE '' @ If_endLabel condition g]"
  "variables (If_body_state condition g) = variables (snd (generateAssembly_expr condition g))"
  by (simp_all add: If_body_state_def If_endLabel_def Let_def case_prod_beta)

lemma If_generateAssembly:
  "generateAssembly_stmt (If condition thenBranch) g
     = emit (generateAssembly_stmt thenBranch (If_body_state condition g))
         (If_endLabel condition g @ '':'')"
  by (simp add: If_body_state_def If_endLabel_def Let_def case_prod_beta)

lemma stmt_registers_eq:
  "stmt_registers s g
     = map (\<lambda>i. register_name (registerCount g + of_nat i)) [0..<stmt_evaluations s]"
  "stmts_registers ss g
     = map (\<lambda>i. register_name (registerCount g + of_nat i))
         [0..<sum_list (map stmt_evaluations ss)]"
proof (induction s g and ss g rule: stmt_registers_stmts_registers.induct)
  case (1 ident exp g)
  show ?case by (simp add: expr_registers_eq)
next
  case (2 ty name initializer g)
  show ?case by (cases initializer) (simp_all add: expr_registers_eq)
next
  case (3 statements g)
  then show ?case by simp
next
  case (4 condition thenBranch g)
  let ?a = "expr_evaluations condition" and ?b = "stmt_evaluations thenBranch"
  let ?f = "\<lambda>i. register_name (registerCount g + of_nat i)"
  have c1: "registerCount (snd (generateAssembly_expr condition g)) = registerCount g + of_nat ?a"
    using expr_result [of condition g] by simp
  have "stmt_registers thenBranch (If_body_state condition g) = map (\<lambda>i. ?f (?a + i)) [0..<?b]"
    using 4 by (simp add: c1 add.assoc)
  then have "stmt_registers (If condition thenBranch) g
      = map ?f [0..<?a] @ map (\<lambda>i. ?f (?a + i)) [0..<?b]"
    by (simp add: expr_registers_eq)
  then show ?case by (simp add: map_upt_add [of ?f ?a ?b])
next
  case (5 g)
  show ?case by simp
next
  case (6 s ss g)
  let ?a = "stmt_evaluations s" and ?b = "sum_list (map stmt_evaluations ss)"
  let ?f = "\<lambda>i. register_name (registerCount g + of_nat i)"
  have c1: "registerCount (generateAssembly_stmt s g) = registerCount g + of_nat ?a"
    using stmt_counters [of s g] by simp
  have "stmts_registers ss (generateAssembly_stmt s g) = map (\<lambda>i. ?f (?a + i)) [0..<?b]"
    using 6 by (simp add: c1 add.assoc)
  with 6 have "stmts_registers (s # ss) g
      = map ?f [0..<?a] @ map (\<lambda>i. ?f (?a + i)) [0..<?b]"
    by simp
  then show ?case by (simp add: map_upt_add [of ?f ?a ?b])
qed

subsection \<open>Label lines\<close>

lemma not_label_line: "code \<noteq> [] \<Longrightarrow> last code \<noteq> CHR '':'' \<Longrightarrow> code \<noteq> label_line k"
  by (auto simp: label_line_def)

lemma not_label_tail: "(pre @ c # to_string v) \<noteq> label_line k"
  using not_label_line [of "pre @ c # to_string v" k]
  by (simp add: to_string_ne to_string_last_not_colon)

lemma MOV_not_label: "''MOV '' @ reg @ '', #'' @ to_string v \<noteq> label_line k"
  using not_label_tail [of "''MOV '' @ reg @ '', ''" "CHR ''#''" v k] by simp

lemma LDR_not_label: "''LDR '' @ reg @ '', ['' @ location @ '']'' \<noteq> label_line k"
  using not_label_line [of "''LDR '' @ reg @ '', ['' @ location @ '']''" k] by simp

lemma STR_not_label: "''STR '' @ reg @ '', ['' @ location @ '']'' \<noteq> label_line k"
  using not_label_line [of "''STR '' @ reg @ '', ['' @ location @ '']''" k] by simp

lemma ADD_not_label:
  "''ADD '' @ res @ '', '' @ l @ '', '' @ ''R'' @ to_string v \<noteq> label_line k"
  using not_label_tail [of "''ADD '' @ res @ '', '' @ l @ '', ''" "CHR ''R''" v k] by simp

lemma SUB_not_label:
  "''SUB '' @ res @ '', '' @ l @ '', '' @ ''R'' @ to_string v \<noteq> label_line k"
  using not_label_tail [of "''SUB '' @ res @ '', '' @ l @ '', ''" "CHR ''R''" v k] by simp

lemma CMP_not_label: "''CMP '' @ l @ '', '' @ ''R'' @ to_string v \<noteq> label_line k"
  using not_label_tail [of "''CMP '' @ l @ '', ''" "CHR ''R''" v k] by simp

lemma MOV0_not_label: "''MOV '' @ res @ '', #0'' \<noteq> label_line k"
  using not_label_line [of "''MOV '' @ res @ '', #0''" k] by simp

lemma MOVEQ_not_label: "''MOVEQ '' @ res @ '', #1'' \<noteq> label_line k"
  using not_label_line [of "''MOVEQ '' @ res @ '', #1''" k] by simp

lemma CMP1_not_label: "''CMP '' @ c @ '', #1'' \<noteq> label_line k"
  using not_label_line [of "''CMP '' @ c @ '', #1''" k] by simp

lemma BNE_not_label: "''BNE '' @ ''L'' @ to_string v \<noteq> label_line k"
  using not_label_tail [of "''BNE ''" "CHR ''L''" v k] by simp

lemma slot_not_label: "slot_line name \<noteq> label_line k"
  using not_label_line [of "slot_line name" k] by (simp add: slot_line_def)

lemmas not_label_lines = MOV_not_label LDR_not_label STR_not_label ADD_not_label SUB_not_label
  CMP_not_label MOV0_not_label MOVEQ_not_label CMP1_not_label BNE_not_label slot_not_label

lemmas not_label_simps = not_label_lines [simplified]

lemma declareVariable_label_lines:
  "count_list (assemblyCode (declareVariable g name)) (label_line k)
     = count_list (assemblyCode g) (label_line k)"
  by (simp add: slot_not_label)

lemma expr_label_lines:
  "count_list (assemblyCode (snd (generateAssembly_expr e g))) (label_line k)
     = count_list (assemblyCode g) (label_line k)"
proof (induction e arbitrary: g)
  case (Number v)
  show ?case by (simp add: Let_def case_prod_beta not_label_simps)
next
  case (Identifier name)
  show ?case by (simp add: Let_def case_prod_beta not_label_simps)
next
  case (BinaryOp op left right)
  let ?g1 = "snd (generateAssembly_expr left g)"
  let ?g2 = "snd (generateAssembly_expr right ?g1)"
  have rr: "fst (generateAssembly_expr right ?g1) =
      ''R'' @ to_string (sint (registerCount ?g2 - 1))"
    using expr_result [of right ?g1] by simp
  have "count_list (assemblyCode ?g2) (label_line k) = count_list (assemblyCode g) (label_line k)"
    by (simp add: BinaryOp.IH)
  then show ?case
    by (simp add: Let_def case_prod_beta rr not_label_simps)
qed

lemma range_split:
  fixes c :: "32 word"
  assumes "unat c + (a + b) < 2 ^ 32"
  shows "(if c \<le> k \<and> k < c + of_nat (a + b) then 1 else 0 :: nat)
     = (if c \<le> k \<and> k < c + of_nat a then 1 else 0)
       + (if c + of_nat a \<le> k \<and> k < c + of_nat a + of_nat b then 1 else 0)"
proof -
  from assms have a: "unat c + a < 2 ^ 32" by simp
  then have u: "unat (c + of_nat a) = unat c + a" by (rule unat_add_of_nat)
  with assms have b: "unat (c + of_nat a) + b < 2 ^ 32" by simp
  show ?thesis
    unfolding in_range_iff [OF assms] in_range_iff [OF a] in_range_iff [OF b] u
    by auto
qed

lemma range_one:
  fixes c :: "32 word"
  assumes "unat c + 1 < 2 ^ 32"
  shows "(c \<le> k \<and> k < c + 1) \<longleftrightarrow> k = c"
proof -
  have "(c \<le> k \<and> k < c + of_nat 1) \<longleftrightarrow> (unat c \<le> unat k \<and> unat k < unat c + 1)"
    using assms by (rule in_range_iff)
  then show ?thesis by (auto simp: word_unat_eq_iff)
qed

lemma range_empty:
  fixes c :: "32 word"
  shows "(if c \<le> k \<and> k < c then 1 else 0 :: nat) = 0"
  by auto

lemma stmt_label_lines:
  assumes "unat (labelCount g) + stmt_ifs s < 2 ^ 32"
  shows "count_list (assemblyCode (generateAssembly_stmt s g)) (label_line k)
     = count_list (assemblyCode g) (label_line k)
       + (if labelCount g \<le> k \<and> k < labelCount g + of_nat (stmt_ifs s) then 1 else 0)"
  using assms
proof (induction s arbitrary: g)
  case (Assignment ident exp)
  show ?case
    by (simp add: Let_def case_prod_beta expr_label_lines slot_not_label not_label_simps
        range_empty)
next
  case (VarDeclaration ty name initializer)
  show ?case
    by (cases initializer)
      (simp_all add: Let_def case_prod_beta expr_label_lines slot_not_label not_label_simps
        range_empty)
next
  case (Block statements)
  then have "count_list (assemblyCode (fold generateAssembly_stmt statements g)) (label_line k)
     = count_list (assemblyCode g) (label_line k)
       + (if labelCount g \<le> k \<and> k < labelCount g + of_nat (sum_list (map stmt_ifs statements))
          then 1 else 0)"
  proof (induction statements arbitrary: g)
    case Nil
    show ?case by (simp add: range_empty)
  next
    case (Cons s ss)
    let ?a = "stmt_ifs s" and ?b = "sum_list (map stmt_ifs ss)"
    let ?h = "generateAssembly_stmt s g"
    from Cons.prems(2) have bound: "unat (labelCount g) + (?a + ?b) < 2 ^ 32" by simp
    then have a: "unat (labelCount g) + ?a < 2 ^ 32" by simp
    have lh: "labelCount ?h = labelCount g + of_nat ?a"
      using stmt_counters [of s g] by simp
    with a bound have b: "unat (labelCount ?h) + ?b < 2 ^ 32"
      by (simp add: unat_add_of_nat)
    have 1: "count_list (assemblyCode ?h) (label_line k)
        = count_list (assemblyCode g) (label_line k)
          + (if labelCount g \<le> k \<and> k < labelCount g + of_nat ?a then 1 else 0)"
      using Cons.prems(1) [of s g] a by simp
    have 2: "count_list (assemblyCode (fold generateAssembly_stmt ss ?h)) (label_line k)
        = count_list (assemblyCode ?h) (label_line k)
          + (if labelCount ?h \<le> k \<and> k < labelCount ?h + of_nat ?b then 1 else 0)"
      using Cons.IH [of ?h] Cons.prems(1) b by simp
    have "count_list (assemblyCode (fold generateAssembly_stmt (s # ss) g)) (label_line k)
        = count_list (assemblyCode g) (label_line k)
          + ((if labelCount g \<le> k \<and> k < labelCount g + of_nat ?a then 1 else 0)
             + (if labelCount g + of_nat ?a \<le> k \<and> k < labelCount g + of_nat ?a + of_nat ?b
                then 1 else 0))"
      using 1 2 by (simp add: lh)
    also have "\<dots> = count_list (assemblyCode g) (label_line k)
          + (if labelCount g \<le> k \<and> k < labelCount g + of_nat (?a + ?b) then 1 else 0)"
      by (simp only: range_split [OF bound])
    finally show ?case by simp
  qed
  then show ?case by simp
next
  case (If condition thenBranch)
  let ?c = "labelCount g" and ?b = "stmt_ifs thenBranch"
  let ?h = "If_body_state condition g"
  from If.prems have bound: "unat ?c + (1 + ?b) < 2 ^ 32" by simp
  then have one: "unat ?c + 1 < 2 ^ 32" by simp
  then have u: "unat (?c + 1) = unat ?c + 1" by (simp add: unat_word_ariths)
  with bound have b: "unat (labelCount ?h) + ?b < 2 ^ 32" by simp
  have h: "count_list (assemblyCode ?h) (label_line k) = count_list (assemblyCode g) (label_line k)"
    by (simp add: expr_label_lines If_endLabel_eq label_name_def not_label_simps)
  have body: "count_list (assemblyCode (generateAssembly_stmt thenBranch ?h)) (label_line k)
      = count_list (assemblyCode ?h) (label_line k)
        + (if ?c + 1 \<le> k \<and> k < ?c + 1 + of_nat ?b then 1 else 0)"
    using If.IH [of ?h] b by simp
  have "count_list (assemblyCode (generateAssembly_stmt (If condition thenBranch) g)) (label_line k)
      = count_list (assemblyCode g) (label_line k)
        + ((if ?c \<le> k \<and> k < ?c + of_nat 1 then 1 else 0)
           + (if ?c + of_nat 1 \<le> k \<and> k < ?c + of_nat 1 + of_nat ?b then 1 else 0))"
    unfolding If_generateAssembly
    using body h range_one [OF one, of k]
    by (auto simp: If_endLabel_eq label_line_def)
  also have "\<dots> = count_list (assemblyCode g) (label_line k)
        + (if ?c \<le> k \<and> k < ?c + of_nat (1 + ?b) then 1 else 0)"
    by (simp only: range_split [OF bound])
  finally show ?case by simp
qed

lemma expr_evaluations_pos: "0 < expr_evaluations e"
  by (cases e) simp_all

lemma expr_result_index:
  "fst (generateAssembly_expr e g)
     = register_name (registerCount g + of_nat (expr_evaluations e - 1))"
proof -
  obtain m where m: "expr_evaluations e = Suc m"
    using expr_evaluations_pos [of e] by (cases "expr_evaluations e") simp_all
  show ?thesis using expr_result_name [of e g] by (simp add: m)
qed

lemma expr_registers_last: "last (expr_registers e g) = fst (generateAssembly_expr e g)"
  by (cases e) simp_all

lemma less_offset:
  fixes c :: "32 word"
  assumes "unat c + n < 2 ^ 32" "i < n"
  shows "c + of_nat i < c + of_nat n"
  using assms by (simp add: word_less_nat_alt unat_add_of_nat)

lemma offset_ne:
  fixes c :: "32 word"
  assumes "unat c + n < 2 ^ 32" "0 < n"
  shows "c \<noteq> c + of_nat n"
  using offset_eq_iff [of c 0 n] assms by simp

lemma issued_labels_grow:
  fixes c :: "32 word"
  assumes "unat c + n < 2 ^ 32"
  shows "label_name ` {..<c + of_nat n}
     = label_name ` {..<c} \<union> label_name ` {k. c \<le> k \<and> k < c + of_nat n}"
proof -
  have "c \<le> c + of_nat n"
    using assms by (simp add: word_le_nat_alt unat_add_of_nat)
  then have "{..<c + of_nat n} = {..<c} \<union> {k. c \<le> k \<and> k < c + of_nat n}"
    by auto
  then show ?thesis by (simp add: image_Un)
qed

lemma start_state:
  "labelCount (generatePostlude (generatePrelude new_CodeGenerator)) = 0"
  "registerCount (generatePostlude (generatePrelude new_CodeGenerator)) = 0"
  "count_list (assemblyCode (generatePostlude (generatePrelude new_CodeGenerator))) (label_line k) = 0"
  by (simp_all add: generatePostlude_def generatePrelude_def new_CodeGenerator_def
      label_line_def label_name_def)

lemma generateEpilogue_label_lines:
  "count_list (assemblyCode (generateEpilogue g)) (label_line k)
     = count_list (assemblyCode g) (label_line k)"
  by (simp add: generateEpilogue_def label_line_def label_name_def)

lemma BinaryOp_registers:
  assumes "unat (registerCount g) + expr_evaluations (BinaryOp op left right) < 2 ^ 32"
  shows "let (leftReg, g1) = generateAssembly_expr left g;
             (rightReg, g2) = generateAssembly_expr right g1;
             (resultReg, g3) = generateAssembly_expr (BinaryOp op left right) g
         in distinct [leftReg, rightReg, resultReg]
            \<and> leftReg \<in> issued_registers g2
            \<and> rightReg \<in> issued_registers g2
            \<and> resultReg \<notin> issued_registers g2"
proof -
  let ?c = "registerCount g"
  let ?a = "expr_evaluations left" and ?b = "expr_evaluations right"
  let ?g1 = "snd (generateAssembly_expr left g)"
  let ?g2 = "snd (generateAssembly_expr right ?g1)"
  from assms have bound: "unat ?c + (?a + ?b) < 2 ^ 32" by simp
  have pa: "0 < ?a" and pb: "0 < ?b" by (rule expr_evaluations_pos)+
  have c1: "registerCount ?g1 = ?c + of_nat ?a"
    using expr_result [of left g] by simp
  have c2: "registerCount ?g2 = ?c + of_nat (?a + ?b)"
    using expr_result [of right ?g1] by (simp add: c1)
  have l: "fst (generateAssembly_expr left g) = register_name (?c + of_nat (?a - 1))"
    by (rule expr_result_index)
  have "fst (generateAssembly_expr right ?g1)
      = register_name (?c + of_nat ?a + of_nat (?b - 1))"
    using expr_result_index [of right ?g1] by (simp only: c1)
  also have "?c + of_nat ?a + of_nat (?b - 1) = ?c + of_nat (?a + ?b - 1)"
    using pb by (simp add: of_nat_diff)
  finally have r: "fst (generateAssembly_expr right ?g1)
      = register_name (?c + of_nat (?a + ?b - 1))" .
  have res: "fst (generateAssembly_expr (BinaryOp op left right) g)
      = register_name (?c + of_nat (?a + ?b))"
    using expr_result_index [of "BinaryOp op left right" g] by simp
  have d1: "?c + of_nat (?a - 1) \<noteq> ?c + of_nat (?a + ?b - 1)"
    using offset_eq_iff [of ?c "?a - 1" "?a + ?b - 1"] bound pa pb by simp
  have d2: "?c + of_nat (?a - 1) \<noteq> ?c + of_nat (?a + ?b)"
    using offset_eq_iff [of ?c "?a - 1" "?a + ?b"] bound pa by simp
  have d3: "?c + of_nat (?a + ?b - 1) \<noteq> ?c + of_nat (?a + ?b)"
    using offset_eq_iff [of ?c "?a + ?b - 1" "?a + ?b"] bound pa by simp
  have i1: "?c + of_nat (?a - 1) < ?c + of_nat (?a + ?b)"
    using bound pa by (intro less_offset) simp_all
  have i2: "?c + of_nat (?a + ?b - 1) < ?c + of_nat (?a + ?b)"
    using bound pa by (intro less_offset) simp_all
  show ?thesis
    unfolding Let_def case_prod_beta l r res
    using d1 d2 d3 i1 i2 by (simp add: register_name_issued c2)
qed

subsection \<open>Fresh registers and labels\<close>

text \<open>
  Claim C9. Within one compilation every expression evaluation allocates one register
  and returns its name, and no name is returned twice: for an expression \<open>e\<close> and for a
  statement \<open>s\<close> generated in any state \<open>g\<close>, the names that the evaluations return (one
  per node of an expression, in the order of return, the last one being the result of
  \<open>e\<close>) are pairwise distinct, none of them was handed out before \<open>g\<close>, and together
  with the names handed out before \<open>g\<close> they are the names handed out when the
  generation ends. In particular the result of a \<^verbatim>\<open>BinaryOp\<close> differs from the registers
  of its two operands, which differ from each other, and it is not among the names
  handed out when the operands have been evaluated.

  Every \<^verbatim>\<open>If\<close> allocates one label, after its condition and before its then-branch is
  generated, and closes its code with the line of that label. The label was not handed
  out before and it is handed out when the then-branch starts; so it differs from the
  label of an \<^verbatim>\<open>if\<close> inside the then-branch (after any statements \<open>before\<close>) and from
  the label of a later sibling \<^verbatim>\<open>if\<close> (after any statements \<open>between\<close>). In the
  generated code the label line of a counter value \<open>k\<close> is added once by a statement
  when \<open>k\<close> is one of the values that the label counter takes in it, and not at all
  otherwise; the output of a compilation of a program with \<open>n\<close> \<^verbatim>\<open>if\<close> statements holds
  the label line of each of the first \<open>n\<close> counter values once and no other label
  line, so no two label lines of an output are equal.

  The names that the evaluations of a whole program return are pairwise distinct, and
  they are the names handed out when the compilation ends.

  The counters are 32-bit. The hypotheses say that a counter does not come back to 0 in
  the part of the compilation that is considered: read as an unsigned number, the
  counter in \<open>g\<close> plus the number of allocations stays below \<open>2^32\<close> (for a whole
  program, which starts with both counters at 0, the program has fewer than \<open>2^32\<close>
  expression nodes and \<^verbatim>\<open>if\<close> statements). Within that range distinct counter values
  give distinct names, also beyond \<^verbatim>\<open>INT_MAX\<close>, where the names carry a minus sign.
\<close>
theorem registers_and_labels_fresh:
  assumes "unat (registerCount g) + expr_evaluations e < 2 ^ 32"
    and "unat (registerCount g) + expr_evaluations (BinaryOp op left right) < 2 ^ 32"
    and "unat (registerCount g) + stmt_evaluations s < 2 ^ 32"
    and "unat (labelCount g) + stmt_ifs s < 2 ^ 32"
    and "unat (labelCount g) + stmt_ifs (Block (If c1 b1 # between)) < 2 ^ 32"
    and "unat (labelCount g) + stmt_ifs (If c1 (Block before)) < 2 ^ 32"
    and "stmt_ifs ast < 2 ^ 32"
    and "stmt_evaluations ast < 2 ^ 32"
  shows "distinct (expr_registers e g)
   \<and> set (expr_registers e g) \<inter> issued_registers g = {}
   \<and> issued_registers (snd (generateAssembly_expr e g))
       = issued_registers g \<union> set (expr_registers e g)
   \<and> length (expr_registers e g) = expr_evaluations e
   \<and> last (expr_registers e g) = fst (generateAssembly_expr e g)
   \<and> registerCount (snd (generateAssembly_expr e g)) = registerCount g + of_nat (expr_evaluations e)
   \<and> (let (leftReg, g1) = generateAssembly_expr left g;
           (rightReg, g2) = generateAssembly_expr right g1;
           (resultReg, g3) = generateAssembly_expr (BinaryOp op left right) g
       in distinct [leftReg, rightReg, resultReg]
          \<and> leftReg \<in> issued_registers g2
          \<and> rightReg \<in> issued_registers g2
          \<and> resultReg \<notin> issued_registers g2)
   \<and> distinct (stmt_registers s g)
   \<and> set (stmt_registers s g) \<inter> issued_registers g = {}
   \<and> issued_registers (generateAssembly_stmt s g)
       = issued_registers g \<union> set (stmt_registers s g)
   \<and> length (stmt_registers s g) = stmt_evaluations s
   \<and> registerCount (generateAssembly_stmt s g) = registerCount g + of_nat (stmt_evaluations s)
   \<and> labelCount (generateAssembly_stmt s g) = labelCount g + of_nat (stmt_ifs s)
   \<and> issued_labels (generateAssembly_stmt s g)
       = issued_labels g
         \<union> label_name ` {k. labelCount g \<le> k \<and> k < labelCount (generateAssembly_stmt s g)}
   \<and> count_list (assemblyCode (generateAssembly_stmt s g)) (label_line k)
       = count_list (assemblyCode g) (label_line k)
         + (if labelCount g \<le> k \<and> k < labelCount (generateAssembly_stmt s g) then 1 else 0)
   \<and> count_list (assemblyCode (main_codegen ast)) (label_line k)
       = (if k < of_nat (stmt_ifs ast) then 1 else 0)
   \<and> distinct (stmt_registers ast (generatePostlude (generatePrelude new_CodeGenerator)))
   \<and> set (stmt_registers ast (generatePostlude (generatePrelude new_CodeGenerator)))
       = issued_registers (main_codegen ast)
   \<and> generateAssembly_stmt (If c1 b1) g
       = emit (generateAssembly_stmt b1 (If_body_state c1 g)) (If_endLabel c1 g @ '':'')
   \<and> If_endLabel c1 g @ '':'' = label_line (labelCount g)
   \<and> If_endLabel c1 g \<notin> issued_labels g
   \<and> If_endLabel c1 g \<in> issued_labels (If_body_state c1 g)
   \<and> last (assemblyCode (generateAssembly_stmt (If c1 b1) g)) = If_endLabel c1 g @ '':''
   \<and> If_endLabel c1 g
       \<noteq> If_endLabel c2 (fold generateAssembly_stmt between (generateAssembly_stmt (If c1 b1) g))
   \<and> If_endLabel c1 g
       \<noteq> If_endLabel c3 (fold generateAssembly_stmt before (If_body_state c1 g))"
proof -
  note e = assms(1) and s = assms(3) and l = assms(4)
  have e1: "distinct (expr_registers e g)"
    unfolding expr_registers_eq using e by (rule names_distinct)
  have e2: "set (expr_registers e g) \<inter> issued_registers g = {}"
    unfolding expr_registers_eq issued_registers_def using e by (rule names_fresh)
  have e6: "registerCount (snd (generateAssembly_expr e g))
      = registerCount g + of_nat (expr_evaluations e)"
    using expr_result [of e g] by simp
  have e3: "issued_registers (snd (generateAssembly_expr e g))
      = issued_registers g \<union> set (expr_registers e g)"
    unfolding expr_registers_eq issued_registers_def e6 using e by (rule names_issued)
  have e4: "length (expr_registers e g) = expr_evaluations e"
    by (simp add: expr_registers_eq)
  note e5 = expr_registers_last [of e g]
  note b = BinaryOp_registers [OF assms(2)]
  have s1: "distinct (stmt_registers s g)"
    unfolding stmt_registers_eq using s by (rule names_distinct)
  have s2: "set (stmt_registers s g) \<inter> issued_registers g = {}"
    unfolding stmt_registers_eq issued_registers_def using s by (rule names_fresh)
  have s5: "registerCount (generateAssembly_stmt s g) = registerCount g + of_nat (stmt_evaluations s)"
    and l1: "labelCount (generateAssembly_stmt s g) = labelCount g + of_nat (stmt_ifs s)"
    using stmt_counters [of s g] by simp_all
  have s3: "issued_registers (generateAssembly_stmt s g)
      = issued_registers g \<union> set (stmt_registers s g)"
    unfolding stmt_registers_eq issued_registers_def s5 using s by (rule names_issued)
  have s4: "length (stmt_registers s g) = stmt_evaluations s"
    by (simp add: stmt_registers_eq)
  have l2: "issued_labels (generateAssembly_stmt s g)
      = issued_labels g
        \<union> label_name ` {k. labelCount g \<le> k \<and> k < labelCount (generateAssembly_stmt s g)}"
    unfolding issued_labels_def l1 using l by (rule issued_labels_grow)
  have l3: "count_list (assemblyCode (generateAssembly_stmt s g)) (label_line k)
      = count_list (assemblyCode g) (label_line k)
        + (if labelCount g \<le> k \<and> k < labelCount (generateAssembly_stmt s g) then 1 else 0)"
    unfolding l1 using l by (rule stmt_label_lines)
  let ?g0 = "generatePostlude (generatePrelude new_CodeGenerator)"
  have "unat (labelCount ?g0) + stmt_ifs ast < 2 ^ 32"
    using assms(7) by (simp add: start_state)
  then have "count_list (assemblyCode (generateAssembly_stmt ast ?g0)) (label_line k)
      = count_list (assemblyCode ?g0) (label_line k)
        + (if labelCount ?g0 \<le> k \<and> k < labelCount ?g0 + of_nat (stmt_ifs ast) then 1 else 0)"
    by (rule stmt_label_lines)
  then have m: "count_list (assemblyCode (main_codegen ast)) (label_line k)
      = (if k < of_nat (stmt_ifs ast) then 1 else 0)"
    by (simp add: main_codegen_def generateEpilogue_label_lines start_state)
  have p0: "unat (registerCount ?g0) + stmt_evaluations ast < 2 ^ 32"
    using assms(8) by (simp add: start_state)
  have p1: "distinct (stmt_registers ast ?g0)"
    unfolding stmt_registers_eq using p0 by (rule names_distinct)
  have "registerCount (main_codegen ast) = registerCount ?g0 + of_nat (stmt_evaluations ast)"
    using stmt_counters [of ast ?g0] by (simp add: main_codegen_def generateEpilogue_def)
  then have "issued_registers (main_codegen ast)
      = issued_registers ?g0 \<union> set (stmt_registers ast ?g0)"
    unfolding stmt_registers_eq issued_registers_def using names_issued [OF p0] by simp
  moreover have "{..<(0::32 word)} = {}"
    by (auto simp: word_less_nat_alt)
  ultimately have p2: "set (stmt_registers ast ?g0) = issued_registers (main_codegen ast)"
    by (simp add: issued_registers_def start_state)
  note i1 = If_generateAssembly [of c1 b1 g]
  have i2: "If_endLabel c1 g @ '':'' = label_line (labelCount g)"
    by (simp add: If_endLabel_eq label_line_def)
  have i3: "If_endLabel c1 g \<notin> issued_labels g"
    by (simp add: If_endLabel_eq label_name_issued)
  from assms(6) have one: "unat (labelCount g) + 1 < 2 ^ 32" by simp
  then have "labelCount g < labelCount g + of_nat 1"
    using less_offset [of "labelCount g" 1 0] by simp
  then have i4: "If_endLabel c1 g \<in> issued_labels (If_body_state c1 g)"
    by (simp add: If_endLabel_eq label_name_issued)
  have i5: "last (assemblyCode (generateAssembly_stmt (If c1 b1) g)) = If_endLabel c1 g @ '':''"
    by (simp only: If_generateAssembly emit_simps last_snoc)
  have "labelCount (generateAssembly_stmt (Block (If c1 b1 # between)) g)
      = labelCount g + of_nat (stmt_ifs (Block (If c1 b1 # between)))"
    using stmt_counters [of "Block (If c1 b1 # between)" g] by simp
  moreover have "labelCount g \<noteq> labelCount g + of_nat (stmt_ifs (Block (If c1 b1 # between)))"
    using assms(5) by (rule offset_ne) simp
  ultimately have i6: "If_endLabel c1 g
      \<noteq> If_endLabel c2 (fold generateAssembly_stmt between (generateAssembly_stmt (If c1 b1) g))"
    by (simp add: If_endLabel_eq)
  have "labelCount (generateAssembly_stmt (Block before) (If_body_state c1 g))
      = labelCount g + of_nat (stmt_ifs (If c1 (Block before)))"
    using stmt_counters [of "Block before" "If_body_state c1 g"] by simp
  moreover have "labelCount g \<noteq> labelCount g + of_nat (stmt_ifs (If c1 (Block before)))"
    using assms(6) by (rule offset_ne) simp
  ultimately have i7: "If_endLabel c1 g
      \<noteq> If_endLabel c3 (fold generateAssembly_stmt before (If_body_state c1 g))"
    by (simp add: If_endLabel_eq)
  from e1 e2 e3 e4 e5 e6 b s1 s2 s3 s4 s5 l1 l2 l3 m p1 p2 i1 i2 i3 i4 i5 i6 i7
  show ?thesis by (intro conjI)
qed

theorem registers_and_labels_fresh_witness:
  "unat (registerCount new_CodeGenerator)
     + expr_evaluations (BinaryOp ''=='' (BinaryOp ''+'' (Identifier ''a'') (Number 1)) (Number 2))
     < 2 ^ 32
   \<and> unat (registerCount new_CodeGenerator)
     + expr_evaluations (BinaryOp ''+'' (Identifier ''a'') (Number 1)) < 2 ^ 32
   \<and> unat (registerCount new_CodeGenerator)
     + stmt_evaluations
         (Block [If (Number 1) (Block [If (Number 2) (Block [])]), If (Number 3) (Block [])])
     < 2 ^ 32
   \<and> unat (labelCount new_CodeGenerator)
     + stmt_ifs (Block [If (Number 1) (Block [If (Number 2) (Block [])]), If (Number 3) (Block [])])
     < 2 ^ 32
   \<and> unat (labelCount new_CodeGenerator)
     + stmt_ifs (Block (If (Number 1) (Block [If (Number 2) (Block [])]) # [])) < 2 ^ 32
   \<and> unat (labelCount new_CodeGenerator) + stmt_ifs (If (Number 1) (Block [])) < 2 ^ 32
   \<and> stmt_ifs (Block [If (Number 1) (Block [If (Number 2) (Block [])]), If (Number 3) (Block [])])
     < 2 ^ 32
   \<and> stmt_evaluations
       (Block [If (Number 1) (Block [If (Number 2) (Block [])]), If (Number 3) (Block [])])
     < 2 ^ 32
   \<and> expr_registers (BinaryOp ''=='' (BinaryOp ''+'' (Identifier ''a'') (Number 1)) (Number 2))
        new_CodeGenerator
       = [''R0'', ''R1'', ''R2'', ''R3'', ''R4'']
   \<and> distinct (expr_registers (BinaryOp ''=='' (BinaryOp ''+'' (Identifier ''a'') (Number 1)) (Number 2))
        new_CodeGenerator)
   \<and> assemblyCode (snd (generateAssembly_expr
          (BinaryOp ''=='' (BinaryOp ''+'' (Identifier ''a'') (Number 1)) (Number 2))
          new_CodeGenerator))
       = [''a: .word 0'', ''LDR R0, [a]'', ''MOV R1, #1'', ''ADD R2, R0, R1'', ''MOV R3, #2'',
          ''CMP R2, R3'', ''MOV R4, #0'', ''MOVEQ R4, #1'']
   \<and> stmt_registers (Block [If (Number 1) (Block [If (Number 2) (Block [])]), If (Number 3) (Block [])])
        new_CodeGenerator
       = [''R0'', ''R1'', ''R2'']
   \<and> assemblyCode (generateAssembly_stmt
          (Block [If (Number 1) (Block [If (Number 2) (Block [])]), If (Number 3) (Block [])])
          new_CodeGenerator)
       = [''MOV R0, #1'', ''CMP R0, #1'', ''BNE L0'',
          ''MOV R1, #2'', ''CMP R1, #1'', ''BNE L1'', ''L1:'', ''L0:'',
          ''MOV R2, #3'', ''CMP R2, #1'', ''BNE L2'', ''L2:'']
   \<and> label_line 1 = ''L1:''
   \<and> count_list (assemblyCode (generateAssembly_stmt
          (Block [If (Number 1) (Block [If (Number 2) (Block [])]), If (Number 3) (Block [])])
          new_CodeGenerator)) (label_line 1) = 1
   \<and> count_list (assemblyCode (main_codegen
          (Block [If (Number 1) (Block [If (Number 2) (Block [])]), If (Number 3) (Block [])])))
        (label_line 1) = 1
   \<and> If_endLabel (Number 1) new_CodeGenerator = ''L0''
   \<and> If_endLabel (Number 2) (If_body_state (Number 1) new_CodeGenerator) = ''L1''
   \<and> If_endLabel (Number 3)
        (generateAssembly_stmt (If (Number 1) (Block [If (Number 2) (Block [])])) new_CodeGenerator)
       = ''L2''"
  using registers_and_labels_fresh [where g = new_CodeGenerator
      and e = "BinaryOp ''=='' (BinaryOp ''+'' (Identifier ''a'') (Number 1)) (Number 2)"
      and op = "''+''" and left = "Identifier ''a''" and right = "Number 1"
      and s = "Block [If (Number 1) (Block [If (Number 2) (Block [])]), If (Number 3) (Block [])]"
      and ?c1.0 = "Number 1" and ?b1.0 = "Block [If (Number 2) (Block [])]"
      and between = "[]" and before = "[]"
      and ast = "Block [If (Number 1) (Block [If (Number 2) (Block [])]), If (Number 3) (Block [])]"
      and k = 1 and ?c2.0 = "Number 3" and ?c3.0 = "Number 2"]
  by (simp add: If_endLabel_def If_body_state_def new_CodeGenerator_def getNewRegister_def
      getNewLabel_def emit_def getVariableLocation_def declareVariable_def
      main_codegen_def generatePrelude_def generatePostlude_def generateEpilogue_def
      label_line_def label_name_def register_name_def
      to_string_def digits.simps digit_char_def Let_def)

subsection \<open>Binary operators without an instruction\<close>

text \<open>
  Claim C10. For a \<^verbatim>\<open>BinaryOp\<close> whose operator string is none of \<^verbatim>\<open>+\<close>, \<^verbatim>\<open>-\<close> and
  \<^verbatim>\<open>==\<close> (for example \<^verbatim>\<open>!=\<close>), code generation evaluates the left and then the right
  operand, allocates a fresh result register and returns it, and emits no instruction:
  the output buffer is the one left by the operands, and the state differs from it in
  the register counter only. The function has no error result; nothing is rejected.
\<close>
theorem unsupported_operator_silently_dropped:
  assumes "op \<noteq> ''+''" and "op \<noteq> ''-''" and "op \<noteq> ''==''"
  shows "let (leftReg, g1) = generateAssembly_expr left g;
             (rightReg, g2) = generateAssembly_expr right g1;
             (resultReg, g3) = generateAssembly_expr (BinaryOp op left right) g
         in resultReg = ''R'' @ to_string (sint (registerCount g2))
            \<and> resultReg \<notin> issued_registers g2
            \<and> assemblyCode g3 = assemblyCode g2
            \<and> g3 = g2\<lparr>registerCount := registerCount g2 + 1\<rparr>"
  using assms
  by (simp add: Let_def case_prod_beta getNewRegister_def register_name_issued [unfolded register_name_def, simplified])

theorem unsupported_operator_silently_dropped_witness:
  "(let (leftReg, g1) = generateAssembly_expr (Number 1) new_CodeGenerator;
        (rightReg, g2) = generateAssembly_expr (Number 2) g1;
        (resultReg, g3) = generateAssembly_expr (BinaryOp ''!='' (Number 1) (Number 2)) new_CodeGenerator
    in resultReg = ''R2'' \<and> assemblyCode g2 = [''MOV R0, #1'', ''MOV R1, #2'']
       \<and> assemblyCode g3 = assemblyCode g2)"
  using unsupported_operator_silently_dropped [of "''!=''" "Number 1" new_CodeGenerator "Number 2"]
  by (simp add: new_CodeGenerator_def getNewRegister_def emit_def
      to_string_def digits.simps digit_char_def Let_def)

subsection \<open>Data slots\<close>

lemma SWI_not_slot: "''SWI 0'' \<noteq> slot_line name"
  by (auto simp: slot_line_def dest: arg_cong [where f = length])

lemma slots_consistent_start:
  "slots_consistent (generatePostlude (generatePrelude new_CodeGenerator))"
proof -
  have "''.section .data'' \<noteq> slot_line name" "''.section .text'' \<noteq> slot_line name"
    "''.global _start'' \<noteq> slot_line name" "''_start:'' \<noteq> slot_line name" for name
    by (simp_all add: not_slot_last)
  then show ?thesis
    by (simp add: slots_consistent_def generatePostlude_def generatePrelude_def
        new_CodeGenerator_def emit_def)
qed

lemma variables_start:
  "variables (generatePostlude (generatePrelude new_CodeGenerator)) = Map.empty"
  by (simp add: generatePostlude_def generatePrelude_def new_CodeGenerator_def emit_def)

lemma count_generateEpilogue:
  "count_list (assemblyCode (generateEpilogue g)) (slot_line name)
     = count_list (assemblyCode g) (slot_line name)"
proof -
  have "''MOV R7, #1'' \<noteq> slot_line name" by (simp add: not_slot_last)
  moreover have "''MOV R0, #0'' \<noteq> slot_line name"
    using MOV0_not_slot [of "''R0''" name] by simp
  moreover note SWI_not_slot [of name]
  ultimately show ?thesis by (simp add: generateEpilogue_def)
qed

lemma declareVariable_idem: "declareVariable (declareVariable g name) name = declareVariable g name"
  by (simp add: declareVariable_def emit_def)

text \<open>
  Claim C8. For every program and every variable name, the output of a compilation holds
  the slot line \<^verbatim>\<open>name: .word 0\<close> once when the program refers to the name (in a
  declaration, an assignment or an expression, however often and whether declared or
  not) and never otherwise. The line is emitted by the first reference:
  \<^verbatim>\<open>getVariableLocation\<close> and \<^verbatim>\<open>declareVariable\<close> emit it when the name is not yet in the
  table and emit nothing when it is, after either the name is in the table, and
  declaring twice is declaring once.
\<close>
theorem one_slot_line_per_variable:
  "count_list (assemblyCode (main_codegen ast)) (slot_line name)
     = (if name \<in> stmt_vars ast then 1 else 0)
   \<and> assemblyCode (snd (getVariableLocation g name))
     = assemblyCode g @ (if variables g name = None then [slot_line name] else [])
   \<and> assemblyCode (declareVariable g name)
     = assemblyCode g @ (if variables g name = None then [slot_line name] else [])
   \<and> variables (declareVariable g name) name \<noteq> None
   \<and> declareVariable (declareVariable g name) name = declareVariable g name"
proof -
  let ?g0 = "generatePostlude (generatePrelude new_CodeGenerator)"
  let ?g1 = "generateAssembly_stmt ast ?g0"
  have "slots_consistent ?g1"
    using slots_consistent_start by (rule stmt_slots_consistent)
  then have "count_list (assemblyCode ?g1) (slot_line name)
      = (if variables ?g1 name = None then 0 else 1)"
    by (simp add: slots_consistent_def)
  moreover have "dom (variables ?g1) = stmt_vars ast"
    by (simp add: stmt_vars_dom variables_start)
  then have "variables ?g1 name = None \<longleftrightarrow> name \<notin> stmt_vars ast"
    by (auto simp: domIff)
  ultimately have "count_list (assemblyCode (main_codegen ast)) (slot_line name)
     = (if name \<in> stmt_vars ast then 1 else 0)"
    by (simp add: main_codegen_def count_generateEpilogue)
  then show ?thesis
    by (simp add: declareVariable_declared declareVariable_idem)
qed

theorem one_slot_line_per_variable_witness:
  "assemblyCode (main_codegen (Block [Assignment ''y'' (BinaryOp ''+'' (Identifier ''x'') (Identifier ''x'')),
       VarDeclaration ''int'' ''x'' None]))
     = [''.section .data'', ''.section .text'', ''.global _start'', ''_start:'',
        ''x: .word 0'', ''LDR R0, [x]'', ''LDR R1, [x]'', ''ADD R2, R0, R1'',
        ''y: .word 0'', ''STR R2, [y]'', ''MOV R7, #1'', ''MOV R0, #0'', ''SWI 0'']
   \<and> count_list (assemblyCode (main_codegen
         (Block [Assignment ''y'' (BinaryOp ''+'' (Identifier ''x'') (Identifier ''x'')),
                 VarDeclaration ''int'' ''x'' None]))) (slot_line ''x'') = 1"
  using one_slot_line_per_variable [of
      "Block [Assignment ''y'' (BinaryOp ''+'' (Identifier ''x'') (Identifier ''x'')),
              VarDeclaration ''int'' ''x'' None]" "''x''" new_CodeGenerator]
  by (simp add: main_codegen_def generatePostlude_def generatePrelude_def generateEpilogue_def
      new_CodeGenerator_def getNewRegister_def emit_def getVariableLocation_def
      declareVariable_def to_string_def digits.simps digit_char_def Let_def slot_line_def)

text \<open>
  Claim C7. At any point of a compilation (a generator state in which the buffer and the
  variable table agree, which holds from the start of \<^verbatim>\<open>main\<close> and across every
  statement), a declaration without initializer leaves exactly one slot line
  \<^verbatim>\<open>x: .word 0\<close> for its variable in the output, and adds to the output that line (when
  the variable had no slot yet) or nothing: no store instruction, and no register or
  label is allocated.
\<close>
theorem declaration_without_initializer:
  assumes "slots_consistent g"
  shows "let g' = generateAssembly_stmt (VarDeclaration ty x None) g
         in count_list (assemblyCode g') (slot_line x) = 1
            \<and> assemblyCode g' = assemblyCode g @ (if variables g x = None then [slot_line x] else [])
            \<and> registerCount g' = registerCount g
            \<and> labelCount g' = labelCount g
            \<and> slots_consistent g'"
proof -
  have c: "slots_consistent (declareVariable g x)"
    using assms by (rule slots_consistent_declareVariable)
  then have "count_list (assemblyCode (declareVariable g x)) (slot_line x)
      = (if variables (declareVariable g x) x = None then 0 else 1)"
    unfolding slots_consistent_def by (rule spec)
  then have n: "count_list (assemblyCode (declareVariable g x)) (slot_line x) = 1"
    using declareVariable_declared [of g x] by (simp only: if_False)
  have "assemblyCode (declareVariable g x)
      = assemblyCode g @ (if variables g x = None then [slot_line x] else [])"
    by simp
  then have code: "assemblyCode (declareVariable g x)
      = assemblyCode g @ (if variables g x = None then [slot_line x] else [])" .
  have eq: "generateAssembly_stmt (VarDeclaration ty x None) g = declareVariable g x"
    by (simp add: Let_def)
  have r: "registerCount (declareVariable g x) = registerCount g" by simp
  have l: "labelCount (declareVariable g x) = labelCount g" by simp
  show ?thesis unfolding Let_def eq
    using n code r l c by (intro conjI)
qed

theorem declaration_without_initializer_witness:
  "(let g' = generateAssembly_stmt (VarDeclaration ''int'' ''x'' None)
               (generatePostlude (generatePrelude new_CodeGenerator))
    in count_list (assemblyCode g') (slot_line ''x'') = 1
       \<and> assemblyCode g' = [''.section .data'', ''.section .text'', ''.global _start'', ''_start:'',
                             ''x: .word 0''])"
  using declaration_without_initializer [OF slots_consistent_start, of "''int''" "''x''"]
  by (simp add: generatePostlude_def generatePrelude_def
      new_CodeGenerator_def emit_def declareVariable_def Let_def slot_line_def)

subsection \<open>Tokenization\<close>

lemma tokenize_shape:
  "\<exists>body. tokenize lexer tokens = tokens @ body @ [Token TOKEN_EOF '''']
     \<and> TOKEN_EOF \<notin> set (map ttype body)"
proof (induction lexer tokens rule: tokenize.induct)
  case (1 lexer tokens)
  obtain token lexer1 where g: "getNextToken lexer = (token, lexer1)" by force
  show ?case
  proof (cases "ttype token = TOKEN_EOF")
    case True
    then have "length (input (skipWhitespace lexer)) \<le> position (skipWhitespace lexer)"
      using g getNextToken_EOF_iff [of lexer] by simp
    then have "token = Token TOKEN_EOF ''''"
      using g getNextToken_at_end [of lexer] by simp
    with g have "tokenize lexer tokens = tokens @ [] @ [Token TOKEN_EOF '''']"
      by (subst tokenize.simps) simp
    then show ?thesis by (intro exI [of _ "[]"]) simp
  next
    case False
    from "1.IH" [OF g [symmetric] refl refl False]
    obtain body where b: "tokenize lexer1 (tokens @ [token]) = (tokens @ [token]) @ body @ [Token TOKEN_EOF '''']"
      and n: "TOKEN_EOF \<notin> set (map ttype body)" by blast
    from g False b have "tokenize lexer tokens = tokens @ (token # body) @ [Token TOKEN_EOF '''']"
      by (subst tokenize.simps) simp
    moreover from n False have "TOKEN_EOF \<notin> set (map ttype (token # body))" by simp
    ultimately show ?thesis by blast
  qed
qed

lemma getNextToken_end_fixed:
  assumes "ttype (fst (getNextToken l)) = TOKEN_EOF"
  shows "getNextToken (snd (getNextToken l)) = (Token TOKEN_EOF '''', snd (getNextToken l))"
proof -
  from assms have e: "length (input (skipWhitespace l)) \<le> position (skipWhitespace l)"
    by (simp add: getNextToken_EOF_iff)
  then have s: "getNextToken l = (Token TOKEN_EOF '''', skipWhitespace l)"
    by (rule getNextToken_at_end)
  from e have "getNextToken (skipWhitespace l) = (Token TOKEN_EOF '''', skipWhitespace (skipWhitespace l))"
    by (intro getNextToken_at_end) (simp add: skipWhitespace_idem)
  with s show ?thesis by (simp add: skipWhitespace_idem)
qed

lemma getNextToken_end_forever:
  assumes "ttype (fst (getNextToken l)) = TOKEN_EOF"
  shows "getNextToken (((\<lambda>l. snd (getNextToken l)) ^^ n) (snd (getNextToken l)))
     = (Token TOKEN_EOF '''', snd (getNextToken l))"
proof (induction n)
  case 0
  show ?case using assms by (simp add: getNextToken_end_fixed)
next
  case (Suc n)
  have "((\<lambda>l. snd (getNextToken l)) ^^ Suc n) (snd (getNextToken l))
      = snd (getNextToken (((\<lambda>l. snd (getNextToken l)) ^^ n) (snd (getNextToken l))))"
    by simp
  also have "\<dots> = snd (getNextToken l)" by (simp only: Suc.IH snd_conv)
  finally show ?case using assms by (simp only: getNextToken_end_fixed)
qed


text \<open>
  Claim C5. For every input text the tokenizing loop ends (\<open>tokenize\<close> is a total
  function) with a token list whose last element is the \<^verbatim>\<open>TOKEN_EOF\<close> token and which
  holds no other token of that type; \<^verbatim>\<open>getNextToken\<close> has no error result; and once a
  call has returned \<^verbatim>\<open>TOKEN_EOF\<close>, every later call (after any number \<open>n\<close> of further
  calls) returns \<^verbatim>\<open>TOKEN_EOF\<close> again and leaves the lexer as it is.
\<close>

theorem lexer_total_one_EndOfInput:
  "tokenize (new_Lexer source) [] \<noteq> []
   \<and> last (tokenize (new_Lexer source) []) = Token TOKEN_EOF []
   \<and> TOKEN_EOF \<notin> set (map ttype (butlast (tokenize (new_Lexer source) [])))
   \<and> (ttype (fst (getNextToken l)) = TOKEN_EOF \<longrightarrow>
        getNextToken (((\<lambda>l. snd (getNextToken l)) ^^ n) (snd (getNextToken l)))
          = (Token TOKEN_EOF [], snd (getNextToken l)))"
proof -
  obtain body where "tokenize (new_Lexer source) [] = [] @ body @ [Token TOKEN_EOF []]"
    and "TOKEN_EOF \<notin> set (map ttype body)"
    using tokenize_shape [of "new_Lexer source" "[]"] by blast
  then show ?thesis
    by (simp add: getNextToken_end_forever butlast_append)
qed

theorem lexer_total_one_EndOfInput_witness:
  "tokenize (new_Lexer ''x = 4 $'') []
     = [Token TOKEN_IDENTIFIER ''x'', Token TOKEN_ASSIGN ''='', Token TOKEN_NUMBER ''4'',
        Token TOKEN_UNKNOWN ''$'', Token TOKEN_EOF []]
   \<and> ttype (fst (getNextToken \<lparr>input = ''x  '', position = 1\<rparr>)) = TOKEN_EOF
   \<and> getNextToken (((\<lambda>l. snd (getNextToken l)) ^^ 2) (snd (getNextToken \<lparr>input = ''x  '', position = 1\<rparr>)))
        = (Token TOKEN_EOF [], \<lparr>input = ''x  '', position = 3\<rparr>)"
  using lexer_total_one_EndOfInput [of "''x = 4 $''" "\<lparr>input = ''x  '', position = 1\<rparr>" 2]
  by (simp add: tokenize.simps getNextToken_def new_Lexer_def skipWhitespace.simps
      read_alnum.simps read_digits.simps currentChar_def Lexer_advance_def
      isspace_def isalpha_def isalnum_def isdigit_def numeral_2_eq_2 Let_def)

subsection \<open>Evaluation on concrete inputs\<close>

lemmas lexer_eval = tokenize.simps getNextToken_def new_Lexer_def skipWhitespace.simps
  read_alnum.simps read_digits.simps currentChar_def Lexer_advance_def
  isspace_def isalpha_def isalnum_def isdigit_def Let_def

lemmas parser_eval = parse_def parse_while.simps parseStatement.simps parseIf.simps
  parseIf_while.simps parseVarDeclaration_def parseAssignment_def parseExpression.simps
  parseEquality.simps parseEquality_while.simps parseAdditive.simps
  parseAdditive_while.simps parsePrimary.simps match_def peek_def Parser_advance_def
  stoi_def digits_val_def digit_val_def quoted_def

lemmas codegen_eval = main_def main_codegen_def getCurrentCode_def generatePrelude_def
  generatePostlude_def generateEpilogue_def new_CodeGenerator_def getNewRegister_def
  getNewLabel_def emit_def getVariableLocation_def declareVariable_def to_string_def
  digits.simps digit_char_def


subsection \<open>Number tokens\<close>

lemma isdigit_not_isspace: "isdigit c \<Longrightarrow> \<not> isspace c"
  by (auto simp: isdigit_def isspace_def Let_def)

lemma isdigit_not_sign: "isdigit c \<Longrightarrow> c \<noteq> CHR ''-'' \<and> c \<noteq> CHR ''+''"
  by (auto simp: isdigit_def Let_def)

lemma stoi_digits:
  assumes "ds \<noteq> []" and "\<forall>c \<in> set ds. isdigit c"
  shows "stoi ds = (if 2147483647 < digits_val ds then Inl out_of_range
                    else Inr (int (digits_val ds)))"
proof -
  from assms obtain c rest where ds: "ds = c # rest" and c: "isdigit c"
    by (cases ds) auto
  from c have dw: "dropWhile isspace ds = ds"
    by (simp add: ds isdigit_not_isspace)
  from assms(2) have tw: "takeWhile isdigit ds = ds"
    by (simp add: takeWhile_eq_all_conv)
  have sgn: "(case ds of
                [] \<Rightarrow> (False, ds)
              | c # rest \<Rightarrow>
                  if c = CHR ''-'' then (True, rest)
                  else if c = CHR ''+'' then (False, rest)
                  else (False, ds)) = (False, ds)"
    using isdigit_not_sign [OF c] by (simp add: ds)
  show ?thesis
    by (simp add: stoi_def Let_def dw sgn tw assms(1))
qed

lemma read_digits_digits:
  "\<exists>ds. fst (read_digits number l) = number @ ds \<and> (\<forall>c \<in> set ds. isdigit c)
     \<and> (isdigit (currentChar l) \<longrightarrow> ds \<noteq> [])"
proof (induction number l rule: read_digits.induct)
  case (1 number l)
  show ?case
  proof (cases "isdigit (currentChar l)")
    case True
    from "1.IH" [OF True] obtain ds
      where "fst (read_digits (number @ [currentChar l]) (Lexer_advance l))
          = (number @ [currentChar l]) @ ds" and "\<forall>c \<in> set ds. isdigit c"
      by blast
    with True have "fst (read_digits number l) = number @ (currentChar l # ds)
        \<and> (\<forall>c \<in> set (currentChar l # ds). isdigit c) \<and> currentChar l # ds \<noteq> []"
      by (subst read_digits.simps) simp
    then show ?thesis by blast
  next
    case False
    then have "fst (read_digits number l) = number @ []"
      by (subst read_digits.simps) simp
    with False show ?thesis by auto
  qed
qed

lemma getNextToken_NUMBER:
  assumes "ttype (fst (getNextToken l)) = TOKEN_NUMBER"
  shows "ttext (fst (getNextToken l)) \<noteq> [] \<and> (\<forall>c \<in> set (ttext (fst (getNextToken l))). isdigit c)"
proof -
  let ?l = "skipWhitespace l"
  from assms have r: "position ?l < length (input ?l)"
    by (auto simp: getNextToken_def Let_def split: if_splits)
  from assms r have a: "\<not> isalpha (currentChar ?l)"
    by (auto simp: getNextToken_def Let_def case_prod_beta split: if_splits)
  from assms r a have d: "isdigit (currentChar ?l)"
    by (auto simp: getNextToken_def Let_def split: if_splits)
  from r a d have "fst (getNextToken l) = Token TOKEN_NUMBER (fst (read_digits [] ?l))"
    by (simp add: getNextToken_def Let_def case_prod_beta)
  with read_digits_digits [of "[]" ?l] d show ?thesis by auto
qed

text \<open>The text of a number literal: a nonempty string of digits.\<close>

definition number_text :: "string \<Rightarrow> bool" where
  "number_text s = (s \<noteq> [] \<and> list_all isdigit s)"

lemma tokenize_numbers:
  assumes "t \<in> set (tokenize lexer tokens)" and "ttype t = TOKEN_NUMBER"
  shows "t \<in> set tokens \<or> number_text (ttext t)"
  using assms
proof (induction lexer tokens rule: tokenize.induct)
  case (1 lexer tokens)
  obtain token lexer1 where g: "getNextToken lexer = (token, lexer1)" by force
  show ?case
  proof (cases "ttype token = TOKEN_EOF")
    case True
    with g "1.prems" have "t \<in> set (tokens @ [token])"
      by (subst (asm) tokenize.simps) simp
    with True "1.prems"(2) show ?thesis by auto
  next
    case False
    with g "1.prems"(1) have "t \<in> set (tokenize lexer1 (tokens @ [token]))"
      by (subst (asm) tokenize.simps) simp
    from "1.IH" [OF g [symmetric] refl refl False this "1.prems"(2)]
    have "t \<in> set tokens \<or> t = token \<or> number_text (ttext t)" by auto
    moreover have "number_text (ttext token)" if "t = token"
      using getNextToken_NUMBER [of lexer] g that "1.prems"(2)
      by (simp add: number_text_def list_all_iff)
    ultimately show ?thesis by blast
  qed
qed

text \<open>
  Between the cursors \<open>a\<close> and \<open>b\<close>, every \<^verbatim>\<open>TOKEN_NUMBER\<close> has a text that
  \<^verbatim>\<open>std::stoi\<close> converts. A successful parsing function leaves this true of the tokens
  it consumed.
\<close>

definition numbers_fit :: "Token list \<Rightarrow> nat \<Rightarrow> nat \<Rightarrow> bool" where
  "numbers_fit tokens a b =
     (\<forall>i. a \<le> i \<and> i < b \<and> ttype (tokens ! i) = TOKEN_NUMBER
          \<longrightarrow> (\<exists>v. stoi (ttext (tokens ! i)) = Inr v))"

definition parsed :: "Token list \<Rightarrow> nat \<Rightarrow> error + 'a \<times> nat \<Rightarrow> bool" where
  "parsed tokens current r =
     (case r of Inl ex \<Rightarrow> True | Inr (x, current1) \<Rightarrow> numbers_fit tokens current current1)"

lemma parsed_Inl [simp]: "parsed tokens current (Inl ex)"
  by (simp add: parsed_def)

lemma parsed_Inr [simp]:
  "parsed tokens current (Inr (x, current1)) \<longleftrightarrow> numbers_fit tokens current current1"
  by (simp add: parsed_def)

lemma numbers_fit_refl [simp]: "numbers_fit tokens a a"
  by (auto simp: numbers_fit_def)

lemma numbers_fit_trans:
  assumes "numbers_fit tokens a b" and "numbers_fit tokens b c"
  shows "numbers_fit tokens a c"
  unfolding numbers_fit_def
proof (intro allI impI)
  fix i
  assume i: "a \<le> i \<and> i < c \<and> ttype (tokens ! i) = TOKEN_NUMBER"
  show "\<exists>v. stoi (ttext (tokens ! i)) = Inr v"
  proof (cases "i < b")
    case True
    with i assms(1) show ?thesis unfolding numbers_fit_def by blast
  next
    case False
    then have "b \<le> i" by simp
    with i assms(2) show ?thesis unfolding numbers_fit_def by blast
  qed
qed

lemma numbers_fit_Suc:
  "ttype (tokens ! a) \<noteq> TOKEN_NUMBER \<or> (\<exists>v. stoi (ttext (tokens ! a)) = Inr v) \<Longrightarrow>
     numbers_fit tokens a (Suc a)"
  unfolding numbers_fit_def
proof (intro allI impI)
  fix i
  assume a: "ttype (tokens ! a) \<noteq> TOKEN_NUMBER \<or> (\<exists>v. stoi (ttext (tokens ! a)) = Inr v)"
    and i: "a \<le> i \<and> i < Suc a \<and> ttype (tokens ! i) = TOKEN_NUMBER"
  from i have "i = a" by simp
  with a i show "\<exists>v. stoi (ttext (tokens ! i)) = Inr v" by blast
qed

lemma numbers_fit_skip:
  "ttype (peek tokens a) = ty \<Longrightarrow> ty \<noteq> TOKEN_NUMBER \<Longrightarrow> ty \<noteq> TOKEN_EOF \<Longrightarrow>
     numbers_fit tokens a (Suc a)"
  by (rule numbers_fit_Suc) (auto simp: peek_def split: if_splits)

lemma parsed_trans:
  "numbers_fit tokens a b \<Longrightarrow> parsed tokens b r \<Longrightarrow> parsed tokens a r"
  by (auto simp: parsed_def split: sum.splits intro: numbers_fit_trans)

lemma parse_expr_numbers:
  "parsed tokens current (parseExpression tokens current)"
  "parsed tokens current (parseEquality tokens current)"
  "parsed tokens current (parseEquality_while tokens left current)"
  "parsed tokens current (parseAdditive tokens current)"
  "parsed tokens current (parseAdditive_while tokens left current)"
  "parsed tokens current (parsePrimary tokens current)"
proof (induct rule:
    parseExpression_parseEquality_parseEquality_while_parseAdditive_parseAdditive_while_parsePrimary.induct)
  case (1 tokens current)
  then show ?case by (subst parseExpression.simps) simp
next
  case (2 tokens current)
  show ?case
  proof (cases "parseAdditive tokens current")
    case (Inl ex)
    then show ?thesis by (subst parseEquality.simps) simp
  next
    case (Inr b)
    obtain left current1 where b: "b = (left, current1)" by (cases b)
    from "2.hyps"(1) Inr b have "numbers_fit tokens current current1" by simp
    moreover from "2.hyps"(2) [OF Inr b [symmetric]]
    have "parsed tokens current1 (parseEquality_while tokens left current1)" .
    ultimately have "parsed tokens current (parseEquality_while tokens left current1)"
      by (rule parsed_trans)
    then show ?thesis using Inr b by (subst parseEquality.simps) simp
  qed
next
  case (3 tokens left current)
  show ?case
  proof (cases "ttype (peek tokens current) = TOKEN_EQUAL")
    case False
    then show ?thesis by (subst parseEquality_while.simps) simp
  next
    case True
    then have r: "current < length tokens" by (auto intro: peek_not_EOF)
    then have a: "Parser_advance tokens current = (tokens ! current, Suc current)"
      by (rule Parser_advance_in_range)
    from True have s: "numbers_fit tokens current (Suc current)"
      by (rule numbers_fit_skip) simp_all
    show ?thesis
    proof (cases "parseAdditive tokens (Suc current)")
      case (Inl ex)
      with True a show ?thesis by (subst parseEquality_while.simps) simp
    next
      case (Inr b)
      obtain right current2 where b: "b = (right, current2)" by (cases b)
      from "3.hyps"(1) [OF True refl a [symmetric] refl] Inr b
      have "numbers_fit tokens (Suc current) current2" by simp
      with s have "numbers_fit tokens current current2" by (rule numbers_fit_trans)
      moreover from "3.hyps"(2) [OF True refl a [symmetric] refl Inr b [symmetric]]
      have "parsed tokens current2
          (parseEquality_while tokens (BinaryOp (ttext (tokens ! current)) left right) current2)" .
      ultimately have "parsed tokens current
          (parseEquality_while tokens (BinaryOp (ttext (tokens ! current)) left right) current2)"
        by (rule parsed_trans)
      then show ?thesis using True a Inr b
        by (subst parseEquality_while.simps) simp
    qed
  qed
next
  case (4 tokens current)
  show ?case
  proof (cases "parsePrimary tokens current")
    case (Inl ex)
    then show ?thesis by (subst parseAdditive.simps) simp
  next
    case (Inr b)
    obtain left current1 where b: "b = (left, current1)" by (cases b)
    from "4.hyps"(1) Inr b have "numbers_fit tokens current current1" by simp
    moreover from "4.hyps"(2) [OF Inr b [symmetric]]
    have "parsed tokens current1 (parseAdditive_while tokens left current1)" .
    ultimately have "parsed tokens current (parseAdditive_while tokens left current1)"
      by (rule parsed_trans)
    then show ?thesis using Inr b by (subst parseAdditive.simps) simp
  qed
next
  case (5 tokens left current)
  show ?case
  proof (cases "ttype (peek tokens current) = TOKEN_PLUS \<or> ttype (peek tokens current) = TOKEN_MINUS")
    case False
    then show ?thesis by (subst parseAdditive_while.simps) simp
  next
    case True
    then have r: "current < length tokens" by (auto intro: peek_not_EOF)
    then have a: "Parser_advance tokens current = (tokens ! current, Suc current)"
      by (rule Parser_advance_in_range)
    from True have s: "numbers_fit tokens current (Suc current)"
      by (auto intro: numbers_fit_skip)
    show ?thesis
    proof (cases "parsePrimary tokens (Suc current)")
      case (Inl ex)
      with True a show ?thesis by (subst parseAdditive_while.simps) simp
    next
      case (Inr b)
      obtain right current2 where b: "b = (right, current2)" by (cases b)
      from "5.hyps"(1) [OF True refl a [symmetric] refl] Inr b
      have "numbers_fit tokens (Suc current) current2" by simp
      with s have "numbers_fit tokens current current2" by (rule numbers_fit_trans)
      moreover from "5.hyps"(2) [OF True refl a [symmetric] refl Inr b [symmetric]]
      have "parsed tokens current2
          (parseAdditive_while tokens (BinaryOp (ttext (tokens ! current)) left right) current2)" .
      ultimately have "parsed tokens current
          (parseAdditive_while tokens (BinaryOp (ttext (tokens ! current)) left right) current2)"
        by (rule parsed_trans)
      then show ?thesis using True a Inr b
        by (subst parseAdditive_while.simps) simp
    qed
  qed
next
  case (6 tokens current)
  show ?case
  proof (cases "ttype (peek tokens current) = TOKEN_LPAREN")
    case False
    show ?thesis
    proof (cases "ttype (peek tokens current) = TOKEN_NUMBER")
      case True
      then have "current < length tokens" by (auto intro: peek_not_EOF)
      with True show ?thesis
        by (subst parsePrimary.simps)
          (auto simp: match_eq peek_def split: sum.splits intro!: numbers_fit_Suc)
    next
      case notnum: False
      then have "ttype (peek tokens current) = TOKEN_IDENTIFIER \<Longrightarrow> numbers_fit tokens current (Suc current)"
        by (auto intro: numbers_fit_skip)
      with False notnum show ?thesis
        by (subst parsePrimary.simps) (auto simp: match_eq)
    qed
  next
    case True
    then have n: "(False, current) = match tokens current TOKEN_NUMBER"
      and i: "(False, current) = match tokens current TOKEN_IDENTIFIER"
      and p: "(True, Suc current) = match tokens current TOKEN_LPAREN"
      by (simp_all add: match_eq)
    from True have s: "numbers_fit tokens current (Suc current)"
      by (rule numbers_fit_skip) simp_all
    show ?thesis
    proof (cases "parseExpression tokens (Suc current)")
      case (Inl ex)
      with True show ?thesis by (subst parsePrimary.simps) (simp add: match_eq)
    next
      case (Inr b)
      obtain expr current2 where b: "b = (expr, current2)" by (cases b)
      from "6.hyps" [OF n refl i refl p refl] Inr b
      have "numbers_fit tokens (Suc current) current2" by simp
      with s have c2: "numbers_fit tokens current current2" by (rule numbers_fit_trans)
      show ?thesis
      proof (cases "ttype (peek tokens current2) = TOKEN_RPAREN")
        case False
        with True Inr b show ?thesis by (subst parsePrimary.simps) (simp add: match_eq)
      next
        case rp: True
        then have "numbers_fit tokens current2 (Suc current2)"
          by (rule numbers_fit_skip) simp_all
        with c2 have "numbers_fit tokens current (Suc current2)" by (rule numbers_fit_trans)
        with True Inr b rp show ?thesis by (subst parsePrimary.simps) (simp add: match_eq)
      qed
    qed
  qed
qed

lemma parseExpression_numbers_D:
  "parseExpression tokens current = Inr (e, current1) \<Longrightarrow> numbers_fit tokens current current1"
  using parse_expr_numbers(1) [where tokens = tokens and current = current] by simp

lemma parseVarDeclaration_numbers:
  "parsed tokens current (parseVarDeclaration tokens current)"
proof (cases "ttype (peek tokens current) = TOKEN_IDENTIFIER")
  case False
  then show ?thesis by (simp add: parseVarDeclaration_if)
next
  case True
  then have s0: "numbers_fit tokens current (Suc current)"
    by (rule numbers_fit_skip) simp_all
  show ?thesis
  proof (cases "ttype (peek tokens (Suc current)) = TOKEN_ASSIGN")
    case False
    have "numbers_fit tokens current (Suc (Suc current))"
      if "ttype (peek tokens (Suc current)) = TOKEN_SEMICOLON"
      using s0 numbers_fit_skip [OF that] by (auto intro: numbers_fit_trans)
    with True False show ?thesis by (simp add: parseVarDeclaration_if)
  next
    case a: True
    then have "numbers_fit tokens (Suc current) (Suc (Suc current))"
      by (rule numbers_fit_skip) simp_all
    with s0 have s1: "numbers_fit tokens current (Suc (Suc current))"
      by (rule numbers_fit_trans)
    show ?thesis
    proof (cases "parseExpression tokens (Suc (Suc current))")
      case (Inl ex)
      with True a show ?thesis by (simp add: parseVarDeclaration_if)
    next
      case (Inr b)
      obtain init current3 where b: "b = (init, current3)" by (cases b)
      from Inr b have "numbers_fit tokens (Suc (Suc current)) current3"
        by (auto dest: parseExpression_numbers_D)
      with s1 have s3: "numbers_fit tokens current current3" by (rule numbers_fit_trans)
      have "numbers_fit tokens current (Suc current3)"
        if "ttype (peek tokens current3) = TOKEN_SEMICOLON"
        using s3 numbers_fit_skip [OF that] by (auto intro: numbers_fit_trans)
      with True a Inr b show ?thesis by (simp add: parseVarDeclaration_if)
    qed
  qed
qed

lemma parseAssignment_numbers:
  assumes "ttype (peek tokens current) = TOKEN_IDENTIFIER"
  shows "parsed tokens current (parseAssignment tokens current)"
proof -
  from assms have r: "current < length tokens" by (auto intro: peek_not_EOF)
  from assms have s0: "numbers_fit tokens current (Suc current)"
    by (rule numbers_fit_skip) simp_all
  show ?thesis
  proof (cases "ttype (peek tokens (Suc current)) = TOKEN_ASSIGN")
    case False
    then show ?thesis by (simp add: parseAssignment_if [OF r])
  next
    case a: True
    then have "numbers_fit tokens (Suc current) (Suc (Suc current))"
      by (rule numbers_fit_skip) simp_all
    with s0 have s1: "numbers_fit tokens current (Suc (Suc current))"
      by (rule numbers_fit_trans)
    show ?thesis
    proof (cases "parseExpression tokens (Suc (Suc current))")
      case (Inl ex)
      with a show ?thesis by (simp add: parseAssignment_if [OF r])
    next
      case (Inr b)
      obtain val current3 where b: "b = (val, current3)" by (cases b)
      from Inr b have "numbers_fit tokens (Suc (Suc current)) current3"
        by (auto dest: parseExpression_numbers_D)
      with s1 have s3: "numbers_fit tokens current current3" by (rule numbers_fit_trans)
      have "numbers_fit tokens current (Suc current3)"
        if "ttype (peek tokens current3) = TOKEN_SEMICOLON"
        using s3 numbers_fit_skip [OF that] by (auto intro: numbers_fit_trans)
      with a Inr b show ?thesis by (simp add: parseAssignment_if [OF r])
    qed
  qed
qed

lemma parse_stmt_numbers:
  "parsed tokens current (parseStatement tokens current)"
  "parsed tokens current (parseIf tokens current)"
  "parsed tokens current (parseIf_while tokens body current)"
proof (induct rule: parseStatement_parseIf_parseIf_while.induct)
  case (1 tokens current)
  show ?case
  proof (cases "ttype (peek tokens current) = TOKEN_INT")
    case True
    then have "numbers_fit tokens current (Suc current)"
      by (rule numbers_fit_skip) simp_all
    then have "parsed tokens current (parseVarDeclaration tokens (Suc current))"
      using parseVarDeclaration_numbers by (rule parsed_trans)
    with True show ?thesis by (subst parseStatement.simps) (simp add: match_eq)
  next
    case notint: False
    show ?thesis
    proof (cases "ttype (peek tokens current) = TOKEN_IF")
      case True
      then have i: "(False, current) = match tokens current TOKEN_INT"
        and f: "(True, Suc current) = match tokens current TOKEN_IF"
        by (simp_all add: match_eq)
      from True have "numbers_fit tokens current (Suc current)"
        by (rule numbers_fit_skip) simp_all
      then have "parsed tokens current (parseIf tokens (Suc current))"
        using "1.hyps" [OF i refl f refl] by (rule parsed_trans)
      with True show ?thesis by (subst parseStatement.simps) (simp add: match_eq)
    next
      case False
      with notint parseAssignment_numbers [of tokens current] show ?thesis
        by (subst parseStatement.simps) (simp add: match_eq)
    qed
  qed
next
  case (2 tokens current)
  show ?case
  proof (cases "ttype (peek tokens current) = TOKEN_LPAREN")
    case False
    then show ?thesis by (subst parseIf.simps) (simp add: match_eq)
  next
    case l: True
    then have s0: "numbers_fit tokens current (Suc current)"
      by (rule numbers_fit_skip) simp_all
    show ?thesis
    proof (cases "parseExpression tokens (Suc current)")
      case (Inl ex)
      with l show ?thesis by (subst parseIf.simps) (simp add: match_eq)
    next
      case (Inr b)
      obtain condition current2 where b: "b = (condition, current2)" by (cases b)
      from Inr b have "numbers_fit tokens (Suc current) current2"
        by (auto dest: parseExpression_numbers_D)
      with s0 have s2: "numbers_fit tokens current current2" by (rule numbers_fit_trans)
      show ?thesis
      proof (cases "ttype (peek tokens current2) = TOKEN_RPAREN")
        case False
        with l Inr b show ?thesis by (subst parseIf.simps) (simp add: match_eq)
      next
        case rp: True
        then have "numbers_fit tokens current2 (Suc current2)"
          by (rule numbers_fit_skip) simp_all
        with s2 have s3: "numbers_fit tokens current (Suc current2)" by (rule numbers_fit_trans)
        show ?thesis
        proof (cases "ttype (peek tokens (Suc current2)) = TOKEN_LBRACE")
          case False
          with l Inr b rp show ?thesis by (subst parseIf.simps) (simp add: match_eq)
        next
          case lb: True
          then have "numbers_fit tokens (Suc current2) (Suc (Suc current2))"
            by (rule numbers_fit_skip) simp_all
          with s3 have s4: "numbers_fit tokens current (Suc (Suc current2))"
            by (rule numbers_fit_trans)
          from "2.hyps" [of True "Suc current" "(condition, current2)" condition current2
              True "Suc current2" True "Suc (Suc current2)"] l Inr b rp lb
          have "parsed tokens (Suc (Suc current2)) (parseIf_while tokens [] (Suc (Suc current2)))"
            by (simp add: match_eq)
          with s4 have "parsed tokens current (parseIf_while tokens [] (Suc (Suc current2)))"
            by (rule parsed_trans)
          with l Inr b rp lb show ?thesis
            by (subst parseIf.simps) (auto simp: match_eq parsed_def split: sum.splits)
        qed
      qed
    qed
  qed
next
  case (3 tokens body current)
  show ?case
  proof (cases "ttype (peek tokens current) = TOKEN_RBRACE")
    case True
    then have "numbers_fit tokens current (Suc current)"
      by (rule numbers_fit_skip) simp_all
    with True show ?thesis by (subst parseIf_while.simps) (simp add: match_eq)
  next
    case False
    then have m: "(False, current) = match tokens current TOKEN_RBRACE"
      by (simp add: match_eq)
    show ?thesis
    proof (cases "parseStatement tokens current")
      case (Inl ex)
      with False show ?thesis by (subst parseIf_while.simps) (simp add: match_eq)
    next
      case (Inr b)
      obtain stmt current1 where b: "b = (stmt, current1)" by (cases b)
      from "3.hyps"(1) [OF m refl] Inr b have "numbers_fit tokens current current1" by simp
      then have "parsed tokens current (parseIf_while tokens (body @ [stmt]) current1)"
        using "3.hyps"(2) [OF m refl Inr b [symmetric]] by (rule parsed_trans)
      with False Inr b show ?thesis by (subst parseIf_while.simps) (simp add: match_eq)
    qed
  qed
qed

lemma parse_while_numbers:
  "parse_while tokens program current = Inr ast \<Longrightarrow>
     \<exists>current1. numbers_fit tokens current current1 \<and> ttype (peek tokens current1) = TOKEN_EOF"
proof (induction tokens program current rule: parse_while.induct)
  case (1 tokens program current)
  show ?case
  proof (cases "ttype (peek tokens current) = TOKEN_EOF")
    case True
    then show ?thesis by (intro exI [of _ current]) simp
  next
    case False
    with "1.prems" obtain stmt current1
      where s: "parseStatement tokens current = Inr (stmt, current1)"
        and w: "parse_while tokens (program @ [stmt]) current1 = Inr ast"
      by (subst (asm) parse_while.simps) (auto split: sum.splits)
    from "1.IH" [OF False s refl w] obtain current2
      where "numbers_fit tokens current1 current2" and e: "ttype (peek tokens current2) = TOKEN_EOF"
      by blast
    moreover from s parse_stmt_numbers(1) [where tokens = tokens and current = current]
    have "numbers_fit tokens current current1" by simp
    ultimately have "numbers_fit tokens current current2" by (auto intro: numbers_fit_trans)
    with e show ?thesis by blast
  qed
qed

lemma peek_EOF_after_body:
  assumes "tokens = body @ [Token TOKEN_EOF []]" and "TOKEN_EOF \<notin> set (map ttype body)"
    and "ttype (peek tokens current) = TOKEN_EOF"
  shows "length body \<le> current"
proof (rule ccontr)
  assume "\<not> length body \<le> current"
  then have c: "current < length body" by simp
  with assms(1) have "peek tokens current = body ! current"
    by (simp add: peek_def nth_append)
  with assms(3) c have "TOKEN_EOF \<in> set (map ttype body)"
    by (metis length_map nth_map nth_mem)
  with assms(2) show False by simp
qed

lemma numbers_fit_mono: "numbers_fit tokens a c \<Longrightarrow> b \<le> c \<Longrightarrow> numbers_fit tokens a b"
  by (auto simp: numbers_fit_def)

lemma parse_numbers:
  assumes "parse source = Inr ast" and "t \<in> set (tokenize (new_Lexer source) [])"
    and "ttype t = TOKEN_NUMBER"
  shows "\<exists>v. stoi (ttext t) = Inr v"
proof -
  let ?tokens = "tokenize (new_Lexer source) []"
  obtain body where tk: "?tokens = body @ [Token TOKEN_EOF []]"
    and nb: "TOKEN_EOF \<notin> set (map ttype body)"
    using tokenize_shape [of "new_Lexer source" "[]"] by auto
  from assms(1) have "parse_while ?tokens [] 0 = Inr ast"
    by (simp add: parse_def Let_def)
  then obtain current1 where nf: "numbers_fit ?tokens 0 current1"
    and e: "ttype (peek ?tokens current1) = TOKEN_EOF"
    by (auto dest: parse_while_numbers)
  from tk nb e have "length body \<le> current1" by (rule peek_EOF_after_body)
  with nf have f: "numbers_fit ?tokens 0 (length body)" by (rule numbers_fit_mono)
  from assms(2,3) tk have "t \<in> set body" by auto
  then obtain i where i: "i < length body" and t: "body ! i = t"
    by (auto simp: in_set_conv_nth)
  with tk have "?tokens ! i = t" by (simp add: nth_append)
  with f i assms(3) show ?thesis
    unfolding numbers_fit_def by blast
qed


subsection \<open>The statement functions by the type of the next token\<close>





subsection \<open>Missing terminators\<close>




subsection \<open>Number literals out of range\<close>

text \<open>
  Claim C6. For every \<^verbatim>\<open>TOKEN_NUMBER\<close> that the lexer produces from an input,
  \<^verbatim>\<open>std::stoi\<close> either converts its text to exactly the value of the digits or, when that
  value exceeds the largest 32-bit \<^verbatim>\<open>int\<close>, throws \<^verbatim>\<open>std::out_of_range\<close>: no value is
  truncated or wrapped. When the input holds such an oversized literal, \<^verbatim>\<open>main\<close> ends
  with an exception and writes no output.
\<close>
theorem oversized_number_fatal:
  assumes "t \<in> set (tokenize (new_Lexer source) [])" and "ttype t = TOKEN_NUMBER"
  shows "stoi (ttext t) =
           (if 2147483647 < digits_val (ttext t) then Inl out_of_range
            else Inr (int (digits_val (ttext t))))
         \<and> (2147483647 < digits_val (ttext t) \<longrightarrow> (\<exists>ex. main source = Inl ex))"
proof -
  from assms have "number_text (ttext t)"
    using tokenize_numbers [of t "new_Lexer source" "[]"] by simp
  then have s: "stoi (ttext t) =
           (if 2147483647 < digits_val (ttext t) then Inl out_of_range
            else Inr (int (digits_val (ttext t))))"
    by (simp add: number_text_def list_all_iff stoi_digits)
  have "\<exists>ex. main source = Inl ex" if big: "2147483647 < digits_val (ttext t)"
  proof (cases "parse source")
    case (Inl ex)
    then show ?thesis by (simp add: main_def)
  next
    case (Inr ast)
    from parse_numbers [OF Inr assms] s big show ?thesis by simp
  qed
  with s show ?thesis by blast
qed

theorem oversized_number_fatal_witness:
  "Token TOKEN_NUMBER ''2147483648'' \<in> set (tokenize (new_Lexer ''x = 2147483648;'') [])
   \<and> 2147483647 < digits_val ''2147483648''
   \<and> stoi ''2147483648'' = Inl out_of_range
   \<and> main ''x = 2147483648;'' = Inl out_of_range
   \<and> parse ''x = 2147483647;'' = Inr (Block [Assignment ''x'' (Number 2147483647)])"
  using oversized_number_fatal [of "Token TOKEN_NUMBER ''2147483648''" "''x = 2147483648;''"]
  by (simp add: lexer_eval parser_eval codegen_eval)

subsection \<open>Where the code departs from its documentation\<close>

text \<open>
  Claim C1 does not hold of the code. \<^verbatim>\<open>main\<close> emits the data-section header and the
  text-section header with the entry label before it walks the tree, so for every
  program the first four lines of the output are these headers, and every slot line
  \<^verbatim>\<open>name: .word 0\<close> comes after \<^verbatim>\<open>.section .text\<close>, among the instructions. For the
  input \<^verbatim>\<open>int x;\<close> the output is the one below.
\<close>
theorem slot_lines_follow_text_header:
  "take 4 (assemblyCode (main_codegen ast))
     = [''.section .data'', ''.section .text'', ''.global _start'', ''_start:'']
   \<and> main ''int x;'' =
       Inr (concat (map (\<lambda>code. code @ [CHR 0x0A])
         [''.section .data'', ''.section .text'', ''.global _start'', ''_start:'',
          ''x: .word 0'', ''MOV R7, #1'', ''MOV R0, #0'', ''SWI 0'']))"
proof -
  let ?g0 = "generatePostlude (generatePrelude new_CodeGenerator)"
  have h: "assemblyCode ?g0
      = [''.section .data'', ''.section .text'', ''.global _start'', ''_start:'']"
    by (simp add: generatePostlude_def generatePrelude_def new_CodeGenerator_def)
  obtain rest where "assemblyCode (generateAssembly_stmt ast ?g0) = assemblyCode ?g0 @ rest"
    using stmt_prefix [of ?g0 ast] by (auto simp: prefix_def)
  then have "take 4 (assemblyCode (main_codegen ast))
     = [''.section .data'', ''.section .text'', ''.global _start'', ''_start:'']"
    by (simp add: main_codegen_def generateEpilogue_def h)
  moreover have "main ''int x;'' =
       Inr (concat (map (\<lambda>code. code @ [CHR 0x0A])
         [''.section .data'', ''.section .text'', ''.global _start'', ''_start:'',
          ''x: .word 0'', ''MOV R7, #1'', ''MOV R0, #0'', ''SWI 0'']))"
    by (simp add: lexer_eval parser_eval codegen_eval)
  ultimately show ?thesis by blast
qed

text \<open>
  Claim C2 does not hold of the code. The source \<^verbatim>\<open>x = a != b;\<close> is rejected, since the
  lexer has no \<^verbatim>\<open>!=\<close> token; on a token vector that holds a \<^verbatim>\<open>TOKEN_NOT_EQUAL\<close> the
  loop of \<^verbatim>\<open>parseEquality\<close> stops in front of it; and for a \<^verbatim>\<open>BinaryOp\<close> with operator
  \<^verbatim>\<open>!=\<close> the generator emits the two operand loads and no compare or move.
\<close>
theorem not_equal_neither_parsed_nor_generated:
  "parse ''x = a != b;'' = Inl (runtime_error (''Expected '' @ quoted '';''))
   \<and> parseEquality
        [Token TOKEN_IDENTIFIER ''a'', Token TOKEN_NOT_EQUAL ''!='', Token TOKEN_IDENTIFIER ''b'',
         Token TOKEN_EOF []] 0
       = Inr (Identifier ''a'', 1)
   \<and> generateAssembly_expr (BinaryOp ''!='' (Identifier ''a'') (Identifier ''b''))
        (generatePostlude (generatePrelude new_CodeGenerator))
       = (''R2'',
          \<lparr>registerCount = 3, labelCount = 0,
           assemblyCode = [''.section .data'', ''.section .text'', ''.global _start'', ''_start:'',
                           ''a: .word 0'', ''LDR R0, [a]'', ''b: .word 0'', ''LDR R1, [b]''],
           variables = [''a'' \<mapsto> ''a'', ''b'' \<mapsto> ''b'']\<rparr>)"
  by (simp add: lexer_eval parser_eval codegen_eval)

text \<open>
  The lexer of \<^verbatim>\<open>parser.cpp\<close> has the case for \<^verbatim>\<open>!\<close>: it returns \<^verbatim>\<open>NotEqual\<close> before
  \<^verbatim>\<open>=\<close>, and \<^verbatim>\<open>Unknown\<close> carrying \<^verbatim>\<open>!\<close> at the end of the input and before any other
  character, which it leaves for the next token.
\<close>

lemma parser_cpp_lexer_bang:
  "parser_cpp_getNextToken (CHR ''!'' # CHR ''='' # rest) = (Token TOKEN_NOT_EQUAL ''!='', rest)
   \<and> parser_cpp_getNextToken [CHR ''!''] = (Token TOKEN_UNKNOWN ''!'', [])
   \<and> (c \<noteq> CHR ''='' \<longrightarrow>
        parser_cpp_getNextToken (CHR ''!'' # c # rest) = (Token TOKEN_UNKNOWN ''!'', c # rest))"
  by (simp add: parser_cpp_getNextToken.simps isspace_def isalpha_def isdigit_def)

text \<open>
  Claim C3 does not hold of the lexer of \<^verbatim>\<open>final_cp.cpp\<close>, whose \<^verbatim>\<open>switch\<close> has no case
  for \<^verbatim>\<open>!\<close>: before \<^verbatim>\<open>=\<close> too it is an \<^verbatim>\<open>Unknown\<close> token, and the \<^verbatim>\<open>=\<close> becomes
  an \<^verbatim>\<open>Assign\<close> token.
\<close>
theorem bang_equal_lexed_as_unknown_then_assign:
  "getNextToken (new_Lexer ''!= b'') = (Token TOKEN_UNKNOWN ''!'', \<lparr>input = ''!= b'', position = 1\<rparr>)
   \<and> tokenize (new_Lexer ''a != b'') []
       = [Token TOKEN_IDENTIFIER ''a'', Token TOKEN_UNKNOWN ''!'', Token TOKEN_ASSIGN ''='',
          Token TOKEN_IDENTIFIER ''b'', Token TOKEN_EOF []]"
  by (simp add: lexer_eval)

end
